theory Spec2Isabelle
  imports Complex_Main "HOL-Library.Word"
begin

section \<open>The stepper motion engine of ESPfirmware.cpp\<close>

text \<open>
  The model follows \<^verbatim>\<open>src/ESPfirmware.cpp\<close>. The global array \<^verbatim>\<open>steppers[MAX_STEPPERS]\<close>
  is a list of records, one per axis. \<^verbatim>\<open>int\<close> and \<^verbatim>\<open>long\<close> fields are mathematical
  integers: signed overflow is undefined behaviour in C++, so the model describes the
  executions in which it does not occur. The one property below that depends on what happens
  at an overflow, the move of zero steps, is stated for the runs in which the position counter
  stays within the range of a 32-bit int, and the wrap-around of that counter on the machine
  is written out in \<open>updateAxis32\<close>. The microsecond clock (\<^verbatim>\<open>unsigned long\<close>, 32 bits on
  the ESP32) is a \<open>32 word\<close>, and the elapsed-time test wraps around as the unsigned
  subtraction of the source does. Serial output and pin writes are collected in a list of
  outputs, in program order. An access \<^verbatim>\<open>steppers[id]\<close> with \<open>id\<close> outside the array is a
  fault of its own (\<open>OutOfBoundsAccess\<close>): the source then writes outside the array.
\<close>

subsection \<open>Data\<close>

definition MAX_STEPPERS :: nat where
  "MAX_STEPPERS = 2"

datatype level = LOW | HIGH

record StepperConfig =
  stepPin :: int
  dirPin :: int
  enablePin :: int
  limitA :: int
  limitB :: int
  home :: int
  position :: int
  minLimit :: int
  maxLimit :: int
  target :: int
  active :: bool
  paused :: bool
  direction :: bool
  homing :: bool
  enableConfigured :: bool
  lastStepTime :: "32 word"
  speed :: int
  acceleration :: int
  deceleration :: int
  minDelay :: int
  maxDelay :: int
  useAcceleration :: bool
  currentDelay :: int
  totalSteps :: int
  stepsTaken :: int
  accelSteps :: int
  decelSteps :: int
  movePhase :: int

datatype pin_mode = OUTPUT | INPUT_PULLUP

text \<open>
  What the firmware emits: pin configuration and pin writes, the step pulse (line high, two
  microseconds, line low), and the JSON lines written to the serial port, one constructor per
  shape of line.
\<close>

datatype event =
    PinMode int pin_mode
  | DigitalWrite int level
  | StepPulse int
  | StepperInitialized int
  | StepperDone int int
  | LimitHit int string int
  | AccelSetup int int int int int int int int
  | StatusOk string
  | StatusError string
  | PinStates int bool bool bool int bool

datatype fault = OutOfBoundsAccess

text \<open>The commands of \<^verbatim>\<open>handleCommand\<close> that reach the motion engine, after JSON decoding.\<close>

datatype command =
    InitStepper int int int int int int int int "int option"
  | MoveStepper int int int int
  | HomeStepper int "int option"
  | SetStepperAcceleration int int
  | SetStepperDeceleration int int
  | SetStepperSpeedLimits int int int
  | GetPinStates int
  | GetStatus "int option"

type_synonym pins = "int \<Rightarrow> level"

type_synonym rounding = "rat \<Rightarrow> rat"

subsection \<open>C arithmetic\<close>

text \<open>Integer division of C++ truncates towards zero.\<close>

definition cdiv :: "int \<Rightarrow> int \<Rightarrow> int" where
  "cdiv a b = sgn a * sgn b * (\<bar>a\<bar> div \<bar>b\<bar>)"

text \<open>The conversion \<^verbatim>\<open>(int)\<close> of a float truncates towards zero.\<close>

definition float_to_int :: "rat \<Rightarrow> int" where
  "float_to_int x = (if 0 \<le> x then \<lfloor>x\<rfloor> else \<lceil>x\<rceil>)"

text \<open>
  Single-precision arithmetic: every conversion to \<^verbatim>\<open>float\<close> and every float operation
  rounds its exact result. The rounding function is a parameter \<open>fl\<close> of the model; the
  theorems below hold for every rounding that is monotone, idempotent and exact on the
  integers up to \<open>2 ^ 24\<close>, as round-to-nearest of IEEE 754 binary32 is (in the range of
  normal numbers, which these quotients and products do not leave).
\<close>

definition float_rounding :: "rounding \<Rightarrow> bool" where
  "float_rounding fl \<longleftrightarrow>
     (\<forall>x y. x \<le> y \<longrightarrow> fl x \<le> fl y) \<and>
     (\<forall>x. fl (fl x) = fl x) \<and>
     (\<forall>n::int. \<bar>n\<bar> \<le> 2 ^ 24 \<longrightarrow> fl (of_int n) = of_int n)"

definition exact :: rounding where
  "exact x = x"

subsection \<open>Profile calculator\<close>

definition calculateAccelSteps :: "StepperConfig \<Rightarrow> int \<Rightarrow> int" where
  "calculateAccelSteps s nsteps =
     (if acceleration s \<le> 0 then 0
      else let calculatedSteps = acceleration s;
               maxAccelSteps = cdiv (nsteps * 2) 5;
               finalSteps = min maxAccelSteps calculatedSteps
           in max finalSteps 10)"

definition calculateDecelSteps :: "StepperConfig \<Rightarrow> int \<Rightarrow> int" where
  "calculateDecelSteps s nsteps =
     (if deceleration s \<le> 0 then 0
      else let calculatedSteps = deceleration s;
               maxDecelSteps = cdiv (nsteps * 2) 5;
               finalSteps = min maxDecelSteps calculatedSteps
           in max finalSteps 10)"

definition calculateAccelDelay :: "rounding \<Rightarrow> int \<Rightarrow> int \<Rightarrow> int \<Rightarrow> int \<Rightarrow> int" where
  "calculateAccelDelay fl currentStep totalAccelSteps startDelay endDelay =
     (if totalAccelSteps = 0 then endDelay
      else let progress = fl (fl (of_int currentStep) / fl (of_int totalAccelSteps))
           in startDelay - float_to_int (fl (fl (of_int (startDelay - endDelay)) * progress)))"

definition calculateDecelDelay :: "rounding \<Rightarrow> int \<Rightarrow> int \<Rightarrow> int \<Rightarrow> int \<Rightarrow> int" where
  "calculateDecelDelay fl currentStep totalDecelSteps startDelay endDelay =
     (if totalDecelSteps = 0 then startDelay
      else let progress = fl (fl (of_int currentStep) / fl (of_int totalDecelSteps))
           in startDelay + float_to_int (fl (fl (of_int (endDelay - startDelay)) * progress)))"

subsection \<open>Starting a move\<close>

definition startAcceleratedMove :: "int \<Rightarrow> int \<Rightarrow> int \<Rightarrow> StepperConfig \<Rightarrow> StepperConfig \<times> event list" where
  "startAcceleratedMove ident targetPos moveSpeed s =
     (let s1 = s\<lparr>totalSteps := \<bar>targetPos - position s\<bar>, stepsTaken := 0, speed := moveSpeed\<rparr>;
          s2 = s1\<lparr>accelSteps := calculateAccelSteps s1 (totalSteps s1)\<rparr>;
          s3 = s2\<lparr>decelSteps := calculateDecelSteps s2 (totalSteps s2)\<rparr>;
          debug = AccelSetup ident (totalSteps s3) (accelSteps s3) (decelSteps s3)
                    (acceleration s3) (deceleration s3) (speed s3) (maxDelay s3);
          s4 = (if accelSteps s3 + decelSteps s3 > totalSteps s3
                then let h = s3\<lparr>accelSteps := cdiv (totalSteps s3) 2\<rparr>
                     in h\<lparr>decelSteps := totalSteps h - accelSteps h\<rparr>
                else s3);
          s5 = (if accelSteps s4 > 0
                then s4\<lparr>movePhase := 0, currentDelay := maxDelay s4\<rparr>
                else s4\<lparr>movePhase := 1, currentDelay := speed s4\<rparr>)
      in (s5\<lparr>active := True, paused := False\<rparr>, [debug]))"

subsection \<open>Safety interlock\<close>

definition readLimitSwitch :: "pins \<Rightarrow> int \<Rightarrow> bool" where
  "readLimitSwitch rd pin = (rd pin = LOW)"

definition checkLimitSwitches :: "pins \<Rightarrow> int \<Rightarrow> int \<Rightarrow> StepperConfig \<Rightarrow> StepperConfig \<times> event list" where
  "checkLimitSwitches rd ident dir s =
     (if dir = 1 \<and> readLimitSwitch rd (limitA s) then
        (s\<lparr>active := False\<rparr>,
         (if enableConfigured s then [DigitalWrite (enablePin s) HIGH] else [])
           @ [LimitHit ident ''limit_a'' (position s)])
      else if dir = 0 \<and> readLimitSwitch rd (limitB s) then
        (s\<lparr>active := False\<rparr>,
         (if enableConfigured s then [DigitalWrite (enablePin s) HIGH] else [])
           @ [LimitHit ident ''limit_b'' (position s)])
      else (s, []))"

subsection \<open>Motion scheduler\<close>

text \<open>The phase update after a step of an accelerated move (lines 421 to 443).\<close>

definition updatePhase :: "rounding \<Rightarrow> StepperConfig \<Rightarrow> StepperConfig" where
  "updatePhase fl s0 =
     (let s = s0\<lparr>stepsTaken := stepsTaken s0 + 1\<rparr>
      in if movePhase s = 0 then
           (if stepsTaken s < accelSteps s
            then s\<lparr>currentDelay := calculateAccelDelay fl (stepsTaken s) (accelSteps s) (maxDelay s) (speed s)\<rparr>
            else s\<lparr>movePhase := 1, currentDelay := speed s\<rparr>)
         else if movePhase s = 1 then
           (let remainingSteps = totalSteps s - stepsTaken s
            in if remainingSteps \<le> decelSteps s then s\<lparr>movePhase := 2\<rparr> else s)
         else if movePhase s = 2 then
           (let decelStep = stepsTaken s - (totalSteps s - decelSteps s)
            in s\<lparr>currentDelay := calculateDecelDelay fl decelStep (decelSteps s) (speed s) (maxDelay s)\<rparr>)
         else s)"

text \<open>
  The body of the loop of \<^verbatim>\<open>updateSteppers\<close> for the axis of index \<open>ident\<close>: \<open>now\<close> is the
  value of \<^verbatim>\<open>micros()\<close> read at the start of the tick and \<open>rd\<close> gives the level that
  \<^verbatim>\<open>digitalRead\<close> returns (the body reads at most one pin: a limit switch when the axis is
  not homing, the home switch when it is).
\<close>

definition stepDue :: "32 word \<Rightarrow> StepperConfig \<Rightarrow> bool" where
  "stepDue now s =
     (let currentDelay = (if useAcceleration s then currentDelay s else speed s)
      in (word_of_int currentDelay :: 32 word) \<le> now - lastStepTime s)"

text \<open>After the pulse: homing, the phase update and the test for completion (lines 410 to 450).\<close>

definition afterStep :: "rounding \<Rightarrow> pins \<Rightarrow> int \<Rightarrow> StepperConfig \<Rightarrow> StepperConfig \<times> event list" where
  "afterStep fl rd ident s2 =
     (if homing s2 \<and> rd (home s2) = LOW then
        (let s3 = s2\<lparr>active := False, homing := False, position := 0\<rparr>
         in (s3, (if enableConfigured s3 then [DigitalWrite (enablePin s3) HIGH] else [])
                   @ [StepperDone ident (position s3)]))
      else
        (let s3 = (if useAcceleration s2 \<and> \<not> homing s2 then updatePhase fl s2 else s2)
         in if \<not> homing s3 \<and> position s3 = target s3 then
              (s3\<lparr>active := False\<rparr>,
               (if enableConfigured s3 then [DigitalWrite (enablePin s3) HIGH] else [])
                 @ [StepperDone ident (position s3)])
            else (s3, [])))"

definition updateAxis :: "rounding \<Rightarrow> 32 word \<Rightarrow> pins \<Rightarrow> int \<Rightarrow> StepperConfig \<Rightarrow> StepperConfig \<times> event list" where
  "updateAxis fl now rd ident s =
     (if \<not> active s \<or> paused s then (s, [])
      else
        let r1 = (if \<not> homing s
                  then checkLimitSwitches rd ident (if direction s then 1 else 0) s
                  else (s, []));
            s1 = fst r1
        in if \<not> homing s \<and> \<not> active s1 then r1
           else if stepDue now s1 then
             (let s2 = s1\<lparr>position := position s1 + (if direction s1 then 1 else - 1),
                          lastStepTime := now\<rparr>;
                  r3 = afterStep fl rd ident s2
              in (fst r3, snd r1 @ StepPulse (stepPin s1) # snd r3))
           else r1)"

text \<open>
  \<^verbatim>\<open>updateSteppers\<close>: the loop over the axes, in registry order. \<open>rd i\<close> is what
  \<^verbatim>\<open>digitalRead\<close> returns during iteration \<open>i\<close>.
\<close>

definition updateSteppers :: "rounding \<Rightarrow> 32 word \<Rightarrow> (nat \<Rightarrow> pins) \<Rightarrow> StepperConfig list \<Rightarrow> StepperConfig list \<times> event list" where
  "updateSteppers fl now rd steppers =
     foldl (\<lambda>(st, out) i. let (s', o') = updateAxis fl now (rd i) (int i) (st ! i)
                           in (st[i := s'], out @ o'))
           (steppers, []) [0..<MAX_STEPPERS]"

text \<open>Ticks of the control loop with no command in between, from the first to the last.\<close>

fun run :: "rounding \<Rightarrow> (32 word \<times> (nat \<Rightarrow> pins)) list \<Rightarrow> StepperConfig list \<Rightarrow> (StepperConfig list \<times> event list) list" where
  "run fl [] steppers = []"
| "run fl (e # es) steppers =
     (let r = updateSteppers fl (fst e) (snd e) steppers in r # run fl es (fst r))"

subsection \<open>Start-up and commands\<close>

text \<open>The record that \<^verbatim>\<open>setup()\<close> writes into every slot: zeroed, then the profile defaults.\<close>

definition setupStepper :: StepperConfig where
  "setupStepper =
     \<lparr>stepPin = 0, dirPin = 0, enablePin = 0, limitA = 0, limitB = 0, home = 0, position = 0,
      minLimit = 0, maxLimit = 0, target = 0, active = False, paused = False,
      direction = False, homing = False, enableConfigured = False, lastStepTime = 0,
      speed = 0, acceleration = 0, deceleration = 0, minDelay = 500, maxDelay = 5000,
      useAcceleration = False, currentDelay = 1000, totalSteps = 0, stepsTaken = 0,
      accelSteps = 0, decelSteps = 0, movePhase = 0\<rparr>"

definition setupSteppers :: "StepperConfig list" where
  "setupSteppers = replicate MAX_STEPPERS setupStepper"

definition initAxis :: "int \<Rightarrow> int \<Rightarrow> int \<Rightarrow> int \<Rightarrow> int \<Rightarrow> int \<Rightarrow> int \<Rightarrow> int \<Rightarrow> int option \<Rightarrow> StepperConfig \<Rightarrow> StepperConfig \<times> event list" where
  "initAxis ident step_pin dir_pin limit_a limit_b home_pin min_limit max_limit enable_pin s =
     (let s1 = s\<lparr>stepPin := step_pin, dirPin := dir_pin, limitA := limit_a, limitB := limit_b,
                  home := home_pin, minLimit := min_limit, maxLimit := max_limit,
                  enableConfigured := (enable_pin \<noteq> None)\<rparr>;
          (s2, o2) = (case enable_pin of
                        Some p \<Rightarrow> (s1\<lparr>enablePin := p\<rparr>, [PinMode p OUTPUT, DigitalWrite p HIGH])
                      | None \<Rightarrow> (s1, []));
          o3 = [PinMode (stepPin s2) OUTPUT, PinMode (dirPin s2) OUTPUT,
                PinMode (home s2) INPUT_PULLUP, PinMode (limitA s2) INPUT_PULLUP,
                PinMode (limitB s2) INPUT_PULLUP]
      in (s2\<lparr>position := 0, active := False, paused := False, homing := False\<rparr>,
          o2 @ o3 @ [StepperInitialized ident]))"

text \<open>
  \<^verbatim>\<open>digitalWrite\<close> takes the value to write as a \<^verbatim>\<open>uint8_t\<close>: an \<^verbatim>\<open>int\<close> argument is
  reduced modulo 256, and the pin is driven high exactly when that byte is not zero. The
  pin number of a write is recorded as the source passes it.
\<close>

definition levelOf :: "int \<Rightarrow> level" where
  "levelOf val = (if val mod 256 = 0 then LOW else HIGH)"

definition moveAxis :: "32 word \<Rightarrow> int \<Rightarrow> int \<Rightarrow> int \<Rightarrow> int \<Rightarrow> StepperConfig \<Rightarrow> StepperConfig \<times> event list" where
  "moveAxis now ident steps dir spd s =
     (let s1 = s\<lparr>target := position s + (if dir = 1 then steps else - steps), speed := spd,
                  direction := (dir \<noteq> 0), homing := False\<rparr>;
          o1 = DigitalWrite (dirPin s1) (levelOf dir)
                 # (if enableConfigured s1 then [DigitalWrite (enablePin s1) LOW] else []);
          (s2, o2) = (if useAcceleration s1 \<and> (acceleration s1 > 0 \<or> deceleration s1 > 0)
                      then startAcceleratedMove ident (target s1) spd s1
                      else (s1\<lparr>active := True, paused := False, currentDelay := spd\<rparr>, []))
      in (s2\<lparr>lastStepTime := now\<rparr>, o1 @ o2))"

definition homeAxis :: "32 word \<Rightarrow> int option \<Rightarrow> StepperConfig \<Rightarrow> StepperConfig \<times> event list" where
  "homeAxis now spd s =
     (let s1 = s\<lparr>direction := False, target := - 999999, active := True, paused := False,
                  homing := True, speed := (case spd of Some v \<Rightarrow> v | None \<Rightarrow> 1000)\<rparr>;
          s2 = s1\<lparr>currentDelay := speed s1\<rparr>
      in (s2\<lparr>lastStepTime := now\<rparr>,
          DigitalWrite (dirPin s) LOW
            # (if enableConfigured s then [DigitalWrite (enablePin s) LOW] else [])))"

definition sendPinStates :: "pins \<Rightarrow> int \<Rightarrow> StepperConfig \<Rightarrow> event" where
  "sendPinStates rd ident s =
     PinStates ident (readLimitSwitch rd (limitA s)) (readLimitSwitch rd (limitB s))
       (readLimitSwitch rd (home s)) (position s) (active s \<and> \<not> paused s)"

text \<open>
  Each branch of \<^verbatim>\<open>handleCommand\<close> with the test on the id that the source makes there:
  none for \<^verbatim>\<open>init_stepper\<close> and \<^verbatim>\<open>home_stepper\<close>, the upper bound alone for
  \<^verbatim>\<open>move_stepper\<close>, both bounds for the others. \<open>now\<close> is \<^verbatim>\<open>micros()\<close> and \<open>rd\<close> the pin
  levels at the time of the command.
\<close>

definition inArray :: "int \<Rightarrow> bool" where
  "inArray ident \<longleftrightarrow> 0 \<le> ident \<and> ident < int MAX_STEPPERS"

definition onAxis :: "int \<Rightarrow> (StepperConfig \<Rightarrow> StepperConfig \<times> event list) \<Rightarrow> StepperConfig list \<Rightarrow> fault + StepperConfig list \<times> event list" where
  "onAxis ident f steppers =
     (if inArray ident
      then (let r = f (steppers ! nat ident) in Inr (steppers[nat ident := fst r], snd r))
      else Inl OutOfBoundsAccess)"

fun handleCommand :: "32 word \<Rightarrow> pins \<Rightarrow> command \<Rightarrow> StepperConfig list \<Rightarrow> fault + StepperConfig list \<times> event list" where
  "handleCommand now rd (InitStepper ident step_pin dir_pin limit_a limit_b home_pin min_limit max_limit enable_pin) steppers =
     onAxis ident (initAxis ident step_pin dir_pin limit_a limit_b home_pin min_limit max_limit enable_pin) steppers"
| "handleCommand now rd (MoveStepper ident steps dir spd) steppers =
     (if ident < int MAX_STEPPERS
      then onAxis ident (moveAxis now ident steps dir spd) steppers
      else Inr (steppers, []))"
| "handleCommand now rd (HomeStepper ident spd) steppers =
     onAxis ident (homeAxis now spd) steppers"
| "handleCommand now rd (SetStepperAcceleration stepper_id accel) steppers =
     (if stepper_id \<ge> 0 \<and> stepper_id < int MAX_STEPPERS
      then onAxis stepper_id
             (\<lambda>s. let s1 = s\<lparr>acceleration := accel\<rparr>
                  in (s1\<lparr>useAcceleration := (acceleration s1 > 0 \<or> deceleration s1 > 0)\<rparr>,
                      [StatusOk ''acceleration_set''])) steppers
      else Inr (steppers, [StatusError ''invalid_stepper_id'']))"
| "handleCommand now rd (SetStepperDeceleration stepper_id decel) steppers =
     (if stepper_id \<ge> 0 \<and> stepper_id < int MAX_STEPPERS
      then onAxis stepper_id
             (\<lambda>s. let s1 = s\<lparr>deceleration := decel\<rparr>
                  in (s1\<lparr>useAcceleration := (acceleration s1 > 0 \<or> deceleration s1 > 0)\<rparr>,
                      [StatusOk ''deceleration_set''])) steppers
      else Inr (steppers, [StatusError ''invalid_stepper_id'']))"
| "handleCommand now rd (SetStepperSpeedLimits stepper_id min_delay max_delay) steppers =
     (if stepper_id \<ge> 0 \<and> stepper_id < int MAX_STEPPERS
      then onAxis stepper_id
             (\<lambda>s. (s\<lparr>minDelay := min_delay, maxDelay := max_delay\<rparr>,
                   [StatusOk ''speed_limits_set''])) steppers
      else Inr (steppers, [StatusError ''invalid_stepper_id'']))"
| "handleCommand now rd (GetPinStates ident) steppers =
     (if ident \<ge> 0 \<and> ident < int MAX_STEPPERS
      then onAxis ident (\<lambda>s. (s, [sendPinStates rd ident s])) steppers
      else Inr (steppers, [StatusError ''invalid_stepper_id'']))"
| "handleCommand now rd (GetStatus opt_id) steppers =
     (let ident = (case opt_id of Some v \<Rightarrow> v | None \<Rightarrow> 0)
      in if ident \<ge> 0 \<and> ident < int MAX_STEPPERS
         then onAxis ident (\<lambda>s. (s, [sendPinStates rd ident s])) steppers
         else Inr (steppers, [StatusError ''invalid_stepper_id'']))"

subsection \<open>Observations on the output and example states\<close>

text \<open>The limit-hit events that carry a given axis id.\<close>

definition limitHitsOf :: "int \<Rightarrow> event list \<Rightarrow> event list" where
  "limitHitsOf ident out = filter (\<lambda>e. case e of LimitHit k _ _ \<Rightarrow> k = ident | _ \<Rightarrow> False) out"

text \<open>Both axes as \<^verbatim>\<open>setup()\<close> leaves them, the first one moving forward at constant speed.\<close>

definition movingForward :: "StepperConfig list" where
  "movingForward =
     [setupStepper\<lparr>target := 5, active := True, direction := True, speed := 1000\<rparr>, setupStepper]"


definition bothRamps :: "StepperConfig list" where
  "bothRamps =
     [setupStepper\<lparr>acceleration := 500, deceleration := 500, useAcceleration := True\<rparr>, setupStepper]"

subsection \<open>Runs\<close>

text \<open>
  The ticks of one axis alone: \<open>runAxis\<close> applies the loop body of the axis to a list of clock
  values and pin levels. \<open>axisView\<close> takes from the inputs of the whole loop those that the
  iteration of axis \<open>i\<close> sees. \<open>finalState\<close> and \<open>allEvents\<close> give the state after a run and
  everything that was emitted during it.
\<close>

fun runAxis :: "rounding \<Rightarrow> int \<Rightarrow> (32 word \<times> pins) list \<Rightarrow> StepperConfig \<Rightarrow> (StepperConfig \<times> event list) list" where
  "runAxis fl ident [] s = []"
| "runAxis fl ident (e # es) s =
     (let r = updateAxis fl (fst e) (snd e) ident s in r # runAxis fl ident es (fst r))"

definition axisView :: "nat \<Rightarrow> (32 word \<times> (nat \<Rightarrow> pins)) list \<Rightarrow> (32 word \<times> pins) list" where
  "axisView i es = map (\<lambda>e. (fst e, snd e i)) es"

definition finalState :: "'a \<Rightarrow> ('a \<times> 'b) list \<Rightarrow> 'a" where
  "finalState s tr = last (s # map fst tr)"


text \<open>The move-complete events that carry a given axis id.\<close>

definition stepperDoneOf :: "int \<Rightarrow> event list \<Rightarrow> event list" where
  "stepperDoneOf ident out = filter (\<lambda>e. case e of StepperDone k _ \<Rightarrow> k = ident | _ \<Rightarrow> False) out"


text \<open>An axis that is seeking home, or idle once the seek has ended.\<close>

definition homeSeek :: "StepperConfig \<Rightarrow> bool" where
  "homeSeek s \<longleftrightarrow> (homing s \<and> active s \<and> \<not> paused s) \<or> (\<not> homing s \<and> \<not> active s)"

text \<open>Example states: an axis away from home before and after a home command, and an axis after a move of zero steps.\<close>

definition awayFromHome :: "StepperConfig list" where
  "awayFromHome = [setupStepper\<lparr>position := 37, direction := True\<rparr>, setupStepper]"

definition homingStart :: "StepperConfig list" where
  "homingStart =
     [setupStepper\<lparr>position := 37, direction := False, target := - 999999, active := True,
                   paused := False, homing := True, speed := 1000, currentDelay := 1000,
                   lastStepTime := 0\<rparr>, setupStepper]"


text \<open>
  The bookkeeping of an accelerated move in progress: the ramp lengths fit into the move, the
  distance left to the target is the number of steps left, an active axis has steps left, and
  each phase holds only in its own range of the step count.
\<close>

definition progressInv :: "StepperConfig \<Rightarrow> bool" where
  "progressInv s \<longleftrightarrow>
     useAcceleration s \<and> \<not> homing s
     \<and> 0 \<le> stepsTaken s \<and> 0 \<le> accelSteps s \<and> 0 \<le> decelSteps s
     \<and> accelSteps s + decelSteps s \<le> totalSteps s
     \<and> (direction s \<longrightarrow> target s - position s = totalSteps s - stepsTaken s)
     \<and> (\<not> direction s \<longrightarrow> position s - target s = totalSteps s - stepsTaken s)
     \<and> (active s \<longrightarrow> \<not> paused s \<and> (stepsTaken s < totalSteps s \<or> totalSteps s = 0))
     \<and> (movePhase s = 0 \<or> movePhase s = 1 \<or> movePhase s = 2)
     \<and> (movePhase s = 0 \<longrightarrow> stepsTaken s < accelSteps s)
     \<and> (movePhase s = 1 \<longrightarrow> accelSteps s \<le> stepsTaken s
            \<and> (decelSteps s < totalSteps s - stepsTaken s \<or> stepsTaken s = accelSteps s))
     \<and> (movePhase s = 2 \<longrightarrow> totalSteps s - stepsTaken s \<le> decelSteps s)"

text \<open>Pin levels with no switch actuated, for one axis and for every iteration of the loop.\<close>

definition released :: pins where
  "released pin = HIGH"

definition allReleased :: "nat \<Rightarrow> pins" where
  "allReleased i = released"





definition eightStepStart :: "StepperConfig list" where
  "eightStepStart =
     [setupStepper\<lparr>acceleration := 500, deceleration := 500, useAcceleration := True,
        target := 8, speed := 1000, direction := True, homing := False, totalSteps := 8,
        stepsTaken := 0, accelSteps := 4, decelSteps := 4, movePhase := 0, currentDelay := 5000,
        active := True, paused := False, lastStepTime := 0\<rparr>, setupStepper]"

text \<open>The delay of the axis lies between its target delay and \<open>maxDelay\<close>.\<close>

definition delayInv :: "StepperConfig \<Rightarrow> bool" where
  "delayInv s \<longleftrightarrow>
     speed s \<le> currentDelay s \<and> currentDelay s \<le> maxDelay s \<and> maxDelay s - speed s \<le> 2 ^ 24"

text \<open>The registry after a constant-speed move command with delay 100 on the start-up state.\<close>

definition fastStart :: "StepperConfig list" where
  "fastStart =
     [setupStepper\<lparr>target := 5, speed := 100, direction := True, homing := False, active := True,
        paused := False, currentDelay := 100, lastStepTime := 0\<rparr>, setupStepper]"

text \<open>
  A move command that heads for its target: the direction pin is driven forward for every
  \<open>dir\<close> other than 0, and the target is \<open>position + steps\<close> for \<open>dir = 1\<close> and
  \<open>position - steps\<close> for every other value.
\<close>

definition headsForTarget :: "int \<Rightarrow> int \<Rightarrow> bool" where
  "headsForTarget dir steps \<longleftrightarrow> (if dir = 0 \<or> dir = 1 then 0 \<le> steps else steps \<le> 0)"

text \<open>The registry after a move command of \<open>- 1\<close> steps in direction 1 on \<open>bothRamps\<close>.\<close>

definition backwardStart :: "StepperConfig list" where
  "backwardStart =
     [setupStepper\<lparr>acceleration := 500, deceleration := 500, useAcceleration := True,
        target := - 1, speed := 1000, direction := True, homing := False, totalSteps := 1,
        stepsTaken := 0, accelSteps := 0, decelSteps := 1, movePhase := 1, currentDelay := 1000,
        active := True, paused := False, lastStepTime := 0\<rparr>, setupStepper]"





text \<open>
  The flag \<open>useAcceleration\<close> as the two setters compute it. It holds of the start-up state,
  and every command and every tick keeps it.
\<close>

definition derivedFlag :: "StepperConfig \<Rightarrow> bool" where
  "derivedFlag s \<longleftrightarrow> (useAcceleration s \<longleftrightarrow> acceleration s > 0 \<or> deceleration s > 0)"

subsection \<open>The position counter as a 32-bit int\<close>

text \<open>
  On the ESP32 an \<^verbatim>\<open>int\<close> has 32 bits. The definitions above hold \<open>position\<close> as an unbounded
  integer, which is what the counter is for as long as it stays between \<open>- 2 ^ 31\<close> and
  \<open>2 ^ 31 - 1\<close>; an increment beyond that range is undefined in C++, and in the two's-complement
  arithmetic of the machine it wraps around. \<open>int32\<close> is the value a 32-bit int holds after
  wrapping; \<open>updateAxis32\<close>, \<open>updateSteppers32\<close> and \<open>run32\<close> are \<open>updateAxis\<close>,
  \<open>updateSteppers\<close> and \<open>run\<close> with the step of the position counter wrapped. They are used
  for a constant-speed move only, whose ticks touch no other counter.
\<close>

definition int32 :: "int \<Rightarrow> int" where
  "int32 x = (x + 2 ^ 31) mod 2 ^ 32 - 2 ^ 31"

definition updateAxis32 :: "rounding \<Rightarrow> 32 word \<Rightarrow> pins \<Rightarrow> int \<Rightarrow> StepperConfig \<Rightarrow> StepperConfig \<times> event list" where
  "updateAxis32 fl now rd ident s =
     (if \<not> active s \<or> paused s then (s, [])
      else
        let r1 = (if \<not> homing s
                  then checkLimitSwitches rd ident (if direction s then 1 else 0) s
                  else (s, []));
            s1 = fst r1
        in if \<not> homing s \<and> \<not> active s1 then r1
           else if stepDue now s1 then
             (let s2 = s1\<lparr>position := int32 (position s1 + (if direction s1 then 1 else - 1)),
                          lastStepTime := now\<rparr>;
                  r3 = afterStep fl rd ident s2
              in (fst r3, snd r1 @ StepPulse (stepPin s1) # snd r3))
           else r1)"

definition updateSteppers32 :: "rounding \<Rightarrow> 32 word \<Rightarrow> (nat \<Rightarrow> pins) \<Rightarrow> StepperConfig list \<Rightarrow> StepperConfig list \<times> event list" where
  "updateSteppers32 fl now rd steppers =
     foldl (\<lambda>(st, out) i. let (s', o') = updateAxis32 fl now (rd i) (int i) (st ! i)
                           in (st[i := s'], out @ o'))
           (steppers, []) [0..<MAX_STEPPERS]"

fun run32 :: "rounding \<Rightarrow> (32 word \<times> (nat \<Rightarrow> pins)) list \<Rightarrow> StepperConfig list \<Rightarrow> (StepperConfig list \<times> event list) list" where
  "run32 fl [] steppers = []"
| "run32 fl (e # es) steppers =
     (let r = updateSteppers32 fl (fst e) (snd e) steppers in r # run32 fl es (fst r))"



section \<open>Verification\<close>

subsection \<open>The loop over the axes\<close>

lemma upt_MAX: "[0..<MAX_STEPPERS] = [0, 1]"
  by (simp add: MAX_STEPPERS_def upt_rec)

lemma updateSteppers_two:
  assumes "length steppers = MAX_STEPPERS"
  shows "updateSteppers fl now rd steppers =
           ([fst (updateAxis fl now (rd 0) 0 (steppers ! 0)), fst (updateAxis fl now (rd 1) 1 (steppers ! 1))],
            snd (updateAxis fl now (rd 0) 0 (steppers ! 0)) @ snd (updateAxis fl now (rd 1) 1 (steppers ! 1)))"
proof -
  from assms obtain a b where st: "steppers = [a, b]"
    by (cases steppers; cases "tl steppers"; auto simp: MAX_STEPPERS_def)
  show ?thesis
    by (simp add: st updateSteppers_def upt_MAX split_beta Let_def)
qed

lemma updateSteppers_nth:
  assumes "length steppers = MAX_STEPPERS" "i < MAX_STEPPERS"
  shows "fst (updateSteppers fl now rd steppers) ! i = fst (updateAxis fl now (rd i) (int i) (steppers ! i))"
proof -
  from assms(2) have "i = 0 \<or> i = 1" by (auto simp: MAX_STEPPERS_def)
  then show ?thesis by (auto simp: updateSteppers_two[OF assms(1)])
qed

lemma updateSteppers_length:
  assumes "length steppers = MAX_STEPPERS"
  shows "length (fst (updateSteppers fl now rd steppers)) = MAX_STEPPERS"
  by (simp add: updateSteppers_two[OF assms] MAX_STEPPERS_def)

lemma updateSteppers_events:
  assumes "length steppers = MAX_STEPPERS"
  shows "snd (updateSteppers fl now rd steppers) =
           concat (map (\<lambda>i. snd (updateAxis fl now (rd i) (int i) (steppers ! i))) [0..<MAX_STEPPERS])"
  by (simp add: updateSteppers_two[OF assms] upt_MAX)

subsection \<open>Limit interlock\<close>

lemma limitHitsOf_append: "limitHitsOf k (xs @ ys) = limitHitsOf k xs @ limitHitsOf k ys"
  by (simp add: limitHitsOf_def)

lemma checkLimitSwitches_hits:
  "k \<noteq> j \<Longrightarrow> limitHitsOf k (snd (checkLimitSwitches rd j d s)) = []"
  by (simp add: checkLimitSwitches_def limitHitsOf_def)

lemma afterStep_hits: "limitHitsOf k (snd (afterStep fl rd j s)) = []"
  by (simp add: afterStep_def limitHitsOf_def Let_def)

lemma updateAxis_other_hits:
  assumes "k \<noteq> j"
  shows "limitHitsOf k (snd (updateAxis fl now rd j s)) = []"
  using checkLimitSwitches_hits[OF assms] afterStep_hits[of k]
  by (simp add: updateAxis_def Let_def limitHitsOf_append) (simp add: limitHitsOf_def)

lemma updateAxis_limit_hit:
  assumes "active s" "\<not> paused s" "\<not> homing s"
    and "readLimitSwitch rd (if direction s then limitA s else limitB s)"
  shows "updateAxis fl now rd j s =
           (s\<lparr>active := False\<rparr>,
            (if enableConfigured s then [DigitalWrite (enablePin s) HIGH] else [])
              @ [LimitHit j (if direction s then ''limit_a'' else ''limit_b'') (position s)])"
  using assms by (cases "direction s") (simp_all add: updateAxis_def checkLimitSwitches_def)

lemma limitHitsOf_concat_none:
  "(\<And>j. j < n \<Longrightarrow> limitHitsOf k (f j) = []) \<Longrightarrow> limitHitsOf k (concat (map f [0..<n])) = []"
  by (induction n) (simp_all add: limitHitsOf_append, simp add: limitHitsOf_def)

lemma limitHitsOf_concat_single:
  assumes "i < n" and "\<And>j. j < n \<Longrightarrow> j \<noteq> i \<Longrightarrow> limitHitsOf k (f j) = []"
  shows "limitHitsOf k (concat (map f [0..<n])) = limitHitsOf k (f i)"
  using assms
proof (induction n)
  case 0
  then show ?case by simp
next
  case (Suc n)
  show ?case
  proof (cases "i = n")
    case True
    have "limitHitsOf k (concat (map f [0..<n])) = []"
      by (rule limitHitsOf_concat_none) (use Suc.prems(2) True in simp)
    then show ?thesis using True by (simp add: limitHitsOf_append)
  next
    case False
    with Suc.prems have "i < n" by simp
    then have "limitHitsOf k (concat (map f [0..<n])) = limitHitsOf k (f i)"
      using Suc.IH Suc.prems(2) by simp
    moreover have "limitHitsOf k (f n) = []"
      using Suc.prems(2)[of n] False by simp
    ultimately show ?thesis by (simp add: limitHitsOf_append)
  qed
qed

text \<open>
  Claim C1. An axis that is active, not paused and not homing, and whose limit switch for the
  current direction of travel (limit A when forward, limit B when backward) reads triggered,
  is handled within the tick as follows: the record of the axis changes in its \<open>active\<close> flag
  alone, which becomes false (so the position is the one of the last completed step and no
  pulse is made); the axis contributes to the tick's output the write that disables the enable
  line, if one is configured, followed by one limit-hit event with the axis id, the name of the
  limit and the position, and nothing else; and that event is the only limit-hit event with
  this axis id in the output of the whole tick.
\<close>

theorem limit_interlock:
  assumes "length steppers = MAX_STEPPERS" and "i < MAX_STEPPERS"
    and "active (steppers ! i)" and "\<not> paused (steppers ! i)" and "\<not> homing (steppers ! i)"
    and "readLimitSwitch (rd i) (if direction (steppers ! i) then limitA (steppers ! i) else limitB (steppers ! i))"
  shows "fst (updateSteppers fl now rd steppers) ! i = (steppers ! i)\<lparr>active := False\<rparr>
       \<and> snd (updateAxis fl now (rd i) (int i) (steppers ! i)) =
           (if enableConfigured (steppers ! i) then [DigitalWrite (enablePin (steppers ! i)) HIGH] else [])
             @ [LimitHit (int i) (if direction (steppers ! i) then ''limit_a'' else ''limit_b'')
                  (position (steppers ! i))]
       \<and> snd (updateSteppers fl now rd steppers) =
           concat (map (\<lambda>j. snd (updateAxis fl now (rd j) (int j) (steppers ! j))) [0..<MAX_STEPPERS])
       \<and> limitHitsOf (int i) (snd (updateSteppers fl now rd steppers)) =
           [LimitHit (int i) (if direction (steppers ! i) then ''limit_a'' else ''limit_b'')
              (position (steppers ! i))]"
proof -
  let ?s = "steppers ! i"
  let ?f = "\<lambda>j. snd (updateAxis fl now (rd j) (int j) (steppers ! j))"
  note ax = updateAxis_limit_hit[OF assms(3-6), of fl now "int i"]
  have a: "fst (updateSteppers fl now rd steppers) ! i = ?s\<lparr>active := False\<rparr>"
    by (simp add: updateSteppers_nth[OF assms(1,2)] ax)
  have ev: "snd (updateSteppers fl now rd steppers) = concat (map ?f [0..<MAX_STEPPERS])"
    by (rule updateSteppers_events[OF assms(1)])
  have own: "limitHitsOf (int i) (?f i) =
      [LimitHit (int i) (if direction ?s then ''limit_a'' else ''limit_b'') (position ?s)]"
    by (simp add: ax limitHitsOf_def)
  have "limitHitsOf (int i) (concat (map ?f [0..<MAX_STEPPERS])) = limitHitsOf (int i) (?f i)"
    by (rule limitHitsOf_concat_single[OF assms(2)]) (simp add: updateAxis_other_hits)
  with own ev have hits: "limitHitsOf (int i) (snd (updateSteppers fl now rd steppers)) =
           [LimitHit (int i) (if direction ?s then ''limit_a'' else ''limit_b'') (position ?s)]"
    by simp
  show ?thesis using a ax ev hits by simp
qed

theorem limit_interlock_witness:
  "length movingForward = MAX_STEPPERS \<and> 0 < MAX_STEPPERS
   \<and> active (movingForward ! 0) \<and> \<not> paused (movingForward ! 0) \<and> \<not> homing (movingForward ! 0)
   \<and> readLimitSwitch (\<lambda>_. LOW) (limitA (movingForward ! 0))
   \<and> fst (updateSteppers exact 7 (\<lambda>_ _. LOW) movingForward) ! 0 = (movingForward ! 0)\<lparr>active := False\<rparr>
   \<and> limitHitsOf 0 (snd (updateSteppers exact 7 (\<lambda>_ _. LOW) movingForward)) = [LimitHit 0 ''limit_a'' 0]"
proof -
  have h: "length movingForward = MAX_STEPPERS" "0 < MAX_STEPPERS"
    "active (movingForward ! 0)" "\<not> paused (movingForward ! 0)" "\<not> homing (movingForward ! 0)"
    by (simp_all add: movingForward_def MAX_STEPPERS_def setupStepper_def)
  have d: "direction (movingForward ! 0)" "position (movingForward ! 0) = 0"
    by (simp_all add: movingForward_def setupStepper_def)
  have t: "readLimitSwitch (\<lambda>_. LOW) (if direction (movingForward ! 0) then limitA (movingForward ! 0) else limitB (movingForward ! 0))"
    by (simp add: readLimitSwitch_def)
  note r = limit_interlock[of movingForward 0 "\<lambda>_ _. LOW" exact 7, OF h t]
  have a: "fst (updateSteppers exact 7 (\<lambda>_ _. LOW) movingForward) ! 0 = (movingForward ! 0)\<lparr>active := False\<rparr>"
    using r by (rule conjunct1)
  have "limitHitsOf (int 0) (snd (updateSteppers exact 7 (\<lambda>_ _. LOW) movingForward)) =
          [LimitHit (int 0) (if direction (movingForward ! 0) then ''limit_a'' else ''limit_b'')
             (position (movingForward ! 0))]"
    using r by blast
  then have b: "limitHitsOf 0 (snd (updateSteppers exact 7 (\<lambda>_ _. LOW) movingForward)) = [LimitHit 0 ''limit_a'' 0]"
    using d by simp
  show ?thesis using h a b by (simp add: readLimitSwitch_def)
qed

subsection \<open>One tick of one axis: position and step count\<close>

lemma updatePhase_fields:
  "position (updatePhase fl s) = position s"
  "stepsTaken (updatePhase fl s) = stepsTaken s + 1"
  "target (updatePhase fl s) = target s"
  "homing (updatePhase fl s) = homing s"
  "active (updatePhase fl s) = active s"
  "paused (updatePhase fl s) = paused s"
  "direction (updatePhase fl s) = direction s"
  "useAcceleration (updatePhase fl s) = useAcceleration s"
  "speed (updatePhase fl s) = speed s"
  "maxDelay (updatePhase fl s) = maxDelay s"
  "minDelay (updatePhase fl s) = minDelay s"
  "totalSteps (updatePhase fl s) = totalSteps s"
  "accelSteps (updatePhase fl s) = accelSteps s"
  "decelSteps (updatePhase fl s) = decelSteps s"
  "enableConfigured (updatePhase fl s) = enableConfigured s"
  "enablePin (updatePhase fl s) = enablePin s"
  "lastStepTime (updatePhase fl s) = lastStepTime s"
  by (simp_all add: updatePhase_def Let_def)









subsection \<open>Commands on a valid axis\<close>

lemma onAxis_valid:
  "inArray ident \<Longrightarrow> onAxis ident f steppers =
     Inr (steppers[nat ident := fst (f (steppers ! nat ident))], snd (f (steppers ! nat ident)))"
  by (simp add: onAxis_def Let_def)


lemma inArray_iff: "inArray ident \<longleftrightarrow> ident \<ge> 0 \<and> ident < int MAX_STEPPERS"
  by (auto simp: inArray_def)



lemma moveStepper_valid:
  assumes "inArray ident"
  shows "handleCommand now rd (MoveStepper ident steps dir spd) steppers =
     Inr (steppers[nat ident := fst (moveAxis now ident steps dir spd (steppers ! nat ident))],
          snd (moveAxis now ident steps dir spd (steppers ! nat ident)))"
  using assms by (simp add: onAxis_valid inArray_iff)

lemma moveAxis_constant:
  assumes "\<not> useAcceleration s"
  shows "moveAxis now ident steps dir spd s =
     (s\<lparr>target := position s + (if dir = 1 then steps else - steps), speed := spd,
        direction := (dir \<noteq> 0), homing := False, active := True, paused := False,
        currentDelay := spd, lastStepTime := now\<rparr>,
      DigitalWrite (dirPin s) (levelOf dir)
        # (if enableConfigured s then [DigitalWrite (enablePin s) LOW] else []))"
  using assms by (simp add: moveAxis_def Let_def)

subsection \<open>Validation of the axis id\<close>

text \<open>
  Claim C3 says that every operation rejects an id outside the registry before any change of
  state. In the source the three setters and the two queries test both bounds and answer
  \<^verbatim>\<open>invalid_stepper_id\<close>; \<^verbatim>\<open>home_stepper\<close> and \<^verbatim>\<open>init_stepper\<close> make no test and index the
  array with the id as it comes; \<^verbatim>\<open>move_stepper\<close> tests the upper bound alone, so a negative
  id indexes the array, and an id that is too large is dropped without any error line.
\<close>

theorem invalid_id_unchecked:
  "handleCommand now rd (HomeStepper 5 None) setupSteppers = Inl OutOfBoundsAccess
   \<and> handleCommand now rd (InitStepper 5 1 2 3 4 6 0 1000 None) setupSteppers = Inl OutOfBoundsAccess
   \<and> handleCommand now rd (MoveStepper (- 1) 5 1 1000) setupSteppers = Inl OutOfBoundsAccess
   \<and> handleCommand now rd (MoveStepper 5 5 1 1000) setupSteppers = Inr (setupSteppers, [])
   \<and> handleCommand now rd (SetStepperAcceleration 5 100) setupSteppers
        = Inr (setupSteppers, [StatusError ''invalid_stepper_id''])"
  by (simp add: onAxis_def inArray_def MAX_STEPPERS_def)

subsection \<open>Clamping of the ramp lengths\<close>

lemma cdiv_nonneg: "0 \<le> a \<Longrightarrow> 0 < b \<Longrightarrow> cdiv a b = a div b"
  by (cases "a = 0") (simp_all add: cdiv_def)

lemma calculateAccelSteps_nonneg: "0 \<le> calculateAccelSteps s n"
  by (simp add: calculateAccelSteps_def Let_def le_max_iff_disj)

lemma calculateDecelSteps_nonneg: "0 \<le> calculateDecelSteps s n"
  by (simp add: calculateDecelSteps_def Let_def le_max_iff_disj)

lemma startAcceleratedMove_steps:
  fixes s ident targetPos moveSpeed
  defines "r \<equiv> fst (startAcceleratedMove ident targetPos moveSpeed s)"
  defines "T \<equiv> \<bar>targetPos - position s\<bar>"
  defines "a \<equiv> calculateAccelSteps s T" and "d \<equiv> calculateDecelSteps s T"
  shows "totalSteps r = T"
    and "a + d \<le> T \<Longrightarrow> accelSteps r = a \<and> decelSteps r = d"
    and "a + d > T \<Longrightarrow> accelSteps r = T div 2 \<and> decelSteps r = T - T div 2"
    and "0 \<le> accelSteps r" and "0 \<le> decelSteps r"
    and "accelSteps r + decelSteps r \<le> totalSteps r"
proof -
  have T0: "0 \<le> T" by (simp add: T_def)
  have c: "cdiv T 2 = T div 2" using T0 by (simp add: cdiv_nonneg)
  have a0: "0 \<le> a" and d0: "0 \<le> d"
    by (simp_all add: a_def d_def calculateAccelSteps_nonneg calculateDecelSteps_nonneg)
  have as: "calculateAccelSteps (s\<lparr>totalSteps := T, stepsTaken := 0, speed := moveSpeed\<rparr>) T = a"
    by (simp add: a_def calculateAccelSteps_def)
  have ds: "calculateDecelSteps (s\<lparr>totalSteps := T, stepsTaken := 0, speed := moveSpeed, accelSteps := a\<rparr>) T = d"
    by (simp add: d_def calculateDecelSteps_def)
  show t: "totalSteps r = T"
    by (simp add: r_def startAcceleratedMove_def Let_def T_def)
  show k: "a + d \<le> T \<Longrightarrow> accelSteps r = a \<and> decelSteps r = d"
    using as ds by (simp add: r_def startAcceleratedMove_def Let_def T_def[symmetric])
  show u: "a + d > T \<Longrightarrow> accelSteps r = T div 2 \<and> decelSteps r = T - T div 2"
    using as ds c by (simp add: r_def startAcceleratedMove_def Let_def T_def[symmetric])
  show "0 \<le> accelSteps r" using k u a0 T0 by (cases "a + d \<le> T") auto
  show "0 \<le> decelSteps r" using k u d0 T0 by (cases "a + d \<le> T") auto
  show "accelSteps r + decelSteps r \<le> totalSteps r" using k u t by (cases "a + d \<le> T") auto
qed

text \<open>
  Claim C4, on a move of five steps with acceleration 0 and deceleration 100: the calculator
  returns 0 and 10, the sum exceeds the five steps, and the rescaling gives the acceleration
  phase two steps although the acceleration is disabled. The bounds on the sum and the even
  split hold (lemma \<open>startAcceleratedMove_steps\<close>); that a ramp is empty when its magnitude is
  not positive holds for the calculator but not after this rescaling.
\<close>

theorem rescale_ignores_disabled_acceleration:
  "(\<exists>st1 out1 st2 out2.
      handleCommand 0 rd (SetStepperDeceleration 0 100) setupSteppers = Inr (st1, out1)
      \<and> handleCommand 0 rd (MoveStepper 0 5 1 1000) st1 = Inr (st2, out2)
      \<and> acceleration (st2 ! 0) = 0 \<and> totalSteps (st2 ! 0) = 5
      \<and> accelSteps (st2 ! 0) = 2 \<and> decelSteps (st2 ! 0) = 3
      \<and> movePhase (st2 ! 0) = 0 \<and> currentDelay (st2 ! 0) = 5000)"
  by (simp add: onAxis_def inArray_def MAX_STEPPERS_def setupSteppers_def setupStepper_def Let_def
        moveAxis_def startAcceleratedMove_def calculateAccelSteps_def calculateDecelSteps_def cdiv_def
        numeral_2_eq_2)

subsection \<open>Position and step pulses\<close>




subsection \<open>Runs of the loop and runs of one axis\<close>

lemma finalState_Nil: "finalState s [] = s"
  by (simp add: finalState_def)

lemma finalState_Cons: "finalState s (r # tr) = finalState (fst r) tr"
  by (simp add: finalState_def)



lemma stepperDoneOf_append: "stepperDoneOf k (xs @ ys) = stepperDoneOf k xs @ stepperDoneOf k ys"
  by (simp add: stepperDoneOf_def)



lemma checkLimitSwitches_done: "stepperDoneOf k (snd (checkLimitSwitches rd j d s)) = []"
  by (simp add: checkLimitSwitches_def stepperDoneOf_def)

lemma afterStep_done_other: "k \<noteq> j \<Longrightarrow> stepperDoneOf k (snd (afterStep fl rd j s)) = []"
  by (simp add: afterStep_def stepperDoneOf_def Let_def)

lemma updateAxis_other_done:
  assumes "k \<noteq> j"
  shows "stepperDoneOf k (snd (updateAxis fl now rd j s)) = []"
  using afterStep_done_other[OF assms] checkLimitSwitches_done[of k]
  by (simp add: updateAxis_def Let_def stepperDoneOf_append) (simp add: stepperDoneOf_def)

lemma updateSteppers_done:
  assumes "length steppers = MAX_STEPPERS" "i < MAX_STEPPERS"
  shows "stepperDoneOf (int i) (snd (updateSteppers fl now rd steppers)) =
         stepperDoneOf (int i) (snd (updateAxis fl now (rd i) (int i) (steppers ! i)))"
proof -
  from assms(2) have "i = 0 \<or> i = 1" by (auto simp: MAX_STEPPERS_def)
  then show ?thesis
  proof
    assume "i = 0"
    then show ?thesis
      using updateAxis_other_done[of 0 1 fl now "rd 1" "steppers ! 1"]
      by (simp add: updateSteppers_two[OF assms(1)] stepperDoneOf_append)
  next
    assume "i = 1"
    then show ?thesis
      using updateAxis_other_done[of 1 0 fl now "rd 0" "steppers ! 0"]
      by (simp add: updateSteppers_two[OF assms(1)] stepperDoneOf_append)
  qed
qed

lemma updateSteppers_hits:
  assumes "length steppers = MAX_STEPPERS" "i < MAX_STEPPERS"
  shows "limitHitsOf (int i) (snd (updateSteppers fl now rd steppers)) =
         limitHitsOf (int i) (snd (updateAxis fl now (rd i) (int i) (steppers ! i)))"
  unfolding updateSteppers_events[OF assms(1)]
  by (rule limitHitsOf_concat_single[OF assms(2)]) (simp add: updateAxis_other_hits)

lemma run_axis:
  assumes "length steppers = MAX_STEPPERS" "i < MAX_STEPPERS"
  shows "map (\<lambda>r. fst r ! i) (run fl es steppers) = map fst (runAxis fl (int i) (axisView i es) (steppers ! i))
       \<and> map (\<lambda>r. stepperDoneOf (int i) (snd r)) (run fl es steppers)
           = map (\<lambda>r. stepperDoneOf (int i) (snd r)) (runAxis fl (int i) (axisView i es) (steppers ! i))
       \<and> map (\<lambda>r. limitHitsOf (int i) (snd r)) (run fl es steppers)
           = map (\<lambda>r. limitHitsOf (int i) (snd r)) (runAxis fl (int i) (axisView i es) (steppers ! i))
       \<and> (\<forall>r \<in> set (run fl es steppers). length (fst r) = MAX_STEPPERS)"
  using assms(1)
proof (induction es arbitrary: steppers)
  case Nil
  then show ?case by (simp add: axisView_def)
next
  case (Cons e es)
  let ?r = "updateSteppers fl (fst e) (snd e) steppers"
  have len: "length (fst ?r) = MAX_STEPPERS"
    by (rule updateSteppers_length[OF Cons.prems])
  note ih = Cons.IH[OF len]
  have n: "fst ?r ! i = fst (updateAxis fl (fst e) (snd e i) (int i) (steppers ! i))"
    by (rule updateSteppers_nth[OF Cons.prems assms(2)])
  have d: "stepperDoneOf (int i) (snd ?r) = stepperDoneOf (int i) (snd (updateAxis fl (fst e) (snd e i) (int i) (steppers ! i)))"
    by (rule updateSteppers_done[OF Cons.prems assms(2)])
  have h: "limitHitsOf (int i) (snd ?r) = limitHitsOf (int i) (snd (updateAxis fl (fst e) (snd e i) (int i) (steppers ! i)))"
    by (rule updateSteppers_hits[OF Cons.prems assms(2)])
  have av: "axisView i (e # es) = (fst e, snd e i) # axisView i es"
    by (simp add: axisView_def)
  show ?case
    using ih n d h len by (simp add: av Let_def)
qed

lemma finalState_axis:
  assumes "length steppers = MAX_STEPPERS" "i < MAX_STEPPERS"
  shows "finalState steppers (run fl es steppers) ! i
         = finalState (steppers ! i) (runAxis fl (int i) (axisView i es) (steppers ! i))"
proof -
  have "finalState steppers (run fl es steppers) ! i = last ((steppers ! i) # map (\<lambda>r. fst r ! i) (run fl es steppers))"
    by (simp add: finalState_def last_map)
  then show ?thesis using run_axis[OF assms, of fl es] by (simp add: finalState_def)
qed




subsection \<open>The three cases of a tick\<close>

lemma updateAxis_idle: "\<not> active s \<or> paused s \<Longrightarrow> updateAxis fl now rd j s = (s, [])"
  by (simp add: updateAxis_def)

lemma updateAxis_moving:
  assumes "active s" "\<not> paused s" "\<not> homing s"
  shows "updateAxis fl now rd j s =
     (if readLimitSwitch rd (if direction s then limitA s else limitB s) then
        (s\<lparr>active := False\<rparr>,
         (if enableConfigured s then [DigitalWrite (enablePin s) HIGH] else [])
           @ [LimitHit j (if direction s then ''limit_a'' else ''limit_b'') (position s)])
      else if stepDue now s then
        (let s2 = s\<lparr>position := position s + (if direction s then 1 else - 1), lastStepTime := now\<rparr>;
             s3 = (if useAcceleration s then updatePhase fl s2 else s2)
         in if position s3 = target s3
            then (s3\<lparr>active := False\<rparr>,
                  StepPulse (stepPin s)
                    # (if enableConfigured s then [DigitalWrite (enablePin s) HIGH] else [])
                    @ [StepperDone j (position s3)])
            else (s3, [StepPulse (stepPin s)]))
      else (s, []))"
proof (cases "readLimitSwitch rd (if direction s then limitA s else limitB s)")
  case True
  then show ?thesis using updateAxis_limit_hit[OF assms True] by simp
next
  case False
  then have c: "checkLimitSwitches rd j (if direction s then 1 else 0) s = (s, [])"
    by (cases "direction s") (simp_all add: checkLimitSwitches_def)
  show ?thesis using assms False
    by (simp add: updateAxis_def c afterStep_def Let_def updatePhase_fields)
qed

lemma updateAxis_homing:
  assumes "active s" "\<not> paused s" "homing s"
  shows "updateAxis fl now rd j s =
     (if stepDue now s then
        (let s2 = s\<lparr>position := position s + (if direction s then 1 else - 1), lastStepTime := now\<rparr>
         in if rd (home s) = LOW
            then (s2\<lparr>active := False, homing := False, position := 0\<rparr>,
                  StepPulse (stepPin s)
                    # (if enableConfigured s then [DigitalWrite (enablePin s) HIGH] else [])
                    @ [StepperDone j 0])
            else (s2, [StepPulse (stepPin s)]))
      else (s, []))"
  using assms by (simp add: updateAxis_def afterStep_def Let_def)

subsection \<open>Moves that start at their target\<close>



subsection \<open>The state after a move command\<close>

lemma startAcceleratedMove_flat:
  fixes s :: StepperConfig and j t v :: int
  defines "T \<equiv> \<bar>t - position s\<bar>"
  defines "a \<equiv> calculateAccelSteps s T" and "d \<equiv> calculateDecelSteps s T"
  defines "a' \<equiv> (if a + d > T then cdiv T 2 else a)"
  defines "d' \<equiv> (if a + d > T then T - cdiv T 2 else d)"
  shows "startAcceleratedMove j t v s =
     (s\<lparr>totalSteps := T, stepsTaken := 0, speed := v, accelSteps := a', decelSteps := d',
        movePhase := (if a' > 0 then 0 else 1),
        currentDelay := (if a' > 0 then maxDelay s else v),
        active := True, paused := False\<rparr>,
      [AccelSetup j T a d (acceleration s) (deceleration s) v (maxDelay s)])"
proof -
  have as: "calculateAccelSteps (s\<lparr>totalSteps := T, stepsTaken := 0, speed := v\<rparr>) T = a"
    by (simp add: a_def calculateAccelSteps_def)
  have ds: "calculateDecelSteps (s\<lparr>totalSteps := T, stepsTaken := 0, speed := v, accelSteps := a\<rparr>) T = d"
    by (simp add: d_def calculateDecelSteps_def)
  show ?thesis
  proof (cases "a + d > T")
    case True
    then have e: "a' = cdiv T 2" "d' = T - cdiv T 2" by (simp_all add: a'_def d'_def)
    show ?thesis unfolding startAcceleratedMove_def T_def[symmetric] e
      using True by (simp add: Let_def as ds)
  next
    case False
    then have e: "a' = a" "d' = d" by (simp_all add: a'_def d'_def)
    show ?thesis unfolding startAcceleratedMove_def T_def[symmetric] e
      using False by (simp add: Let_def as ds)
  qed
qed

lemma startAcceleratedMove_fields:
  "position (fst (startAcceleratedMove j t v s)) = position s"
  "target (fst (startAcceleratedMove j t v s)) = target s"
  "direction (fst (startAcceleratedMove j t v s)) = direction s"
  "homing (fst (startAcceleratedMove j t v s)) = homing s"
  "active (fst (startAcceleratedMove j t v s))"
  "\<not> paused (fst (startAcceleratedMove j t v s))"
  "speed (fst (startAcceleratedMove j t v s)) = v"
  "minDelay (fst (startAcceleratedMove j t v s)) = minDelay s"
  "maxDelay (fst (startAcceleratedMove j t v s)) = maxDelay s"
  "useAcceleration (fst (startAcceleratedMove j t v s)) = useAcceleration s"
  "acceleration (fst (startAcceleratedMove j t v s)) = acceleration s"
  "deceleration (fst (startAcceleratedMove j t v s)) = deceleration s"
  "stepsTaken (fst (startAcceleratedMove j t v s)) = 0"
  "totalSteps (fst (startAcceleratedMove j t v s)) = \<bar>t - position s\<bar>"
  "lastStepTime (fst (startAcceleratedMove j t v s)) = lastStepTime s"
  unfolding startAcceleratedMove_flat by simp_all

lemma moveAxis_fields:
  "position (fst (moveAxis now j steps dir spd s)) = position s"
  "target (fst (moveAxis now j steps dir spd s)) = position s + (if dir = 1 then steps else - steps)"
  "direction (fst (moveAxis now j steps dir spd s)) = (dir \<noteq> 0)"
  "\<not> homing (fst (moveAxis now j steps dir spd s))"
  "active (fst (moveAxis now j steps dir spd s))"
  "\<not> paused (fst (moveAxis now j steps dir spd s))"
  "speed (fst (moveAxis now j steps dir spd s)) = spd"
  "minDelay (fst (moveAxis now j steps dir spd s)) = minDelay s"
  "maxDelay (fst (moveAxis now j steps dir spd s)) = maxDelay s"
  "useAcceleration (fst (moveAxis now j steps dir spd s)) = useAcceleration s"
  "acceleration (fst (moveAxis now j steps dir spd s)) = acceleration s"
  "deceleration (fst (moveAxis now j steps dir spd s)) = deceleration s"
  "lastStepTime (fst (moveAxis now j steps dir spd s)) = now"
  by (simp_all add: moveAxis_def Let_def split_beta startAcceleratedMove_fields)

subsection \<open>Homing\<close>

lemma homeAxis_fields:
  "homing (fst (homeAxis now spd s))" "active (fst (homeAxis now spd s))"
  "\<not> paused (fst (homeAxis now spd s))" "\<not> direction (fst (homeAxis now spd s))"
  "speed (fst (homeAxis now spd s)) = (case spd of Some v \<Rightarrow> v | None \<Rightarrow> 1000)"
  "currentDelay (fst (homeAxis now spd s)) = (case spd of Some v \<Rightarrow> v | None \<Rightarrow> 1000)"
  "target (fst (homeAxis now spd s)) = - 999999"
  "position (fst (homeAxis now spd s)) = position s"
  "lastStepTime (fst (homeAxis now spd s)) = now"
  "stepsTaken (fst (homeAxis now spd s)) = stepsTaken s"
  "movePhase (fst (homeAxis now spd s)) = movePhase s"
  "minDelay (fst (homeAxis now spd s)) = minDelay s"
  "maxDelay (fst (homeAxis now spd s)) = maxDelay s"
  by (simp_all add: homeAxis_def Let_def)

lemma homeStepper_valid:
  assumes "inArray ident"
  shows "handleCommand now rd (HomeStepper ident spd) steppers =
     Inr (steppers[nat ident := fst (homeAxis now spd (steppers ! nat ident))],
          snd (homeAxis now spd (steppers ! nat ident)))"
  using assms by (simp add: onAxis_valid)

lemma homeSeek_tick:
  assumes "homeSeek s"
  shows "homeSeek (fst (updateAxis fl now rd j s))"
    and "speed (fst (updateAxis fl now rd j s)) = speed s"
    and "currentDelay (fst (updateAxis fl now rd j s)) = currentDelay s"
    and "stepsTaken (fst (updateAxis fl now rd j s)) = stepsTaken s"
    and "movePhase (fst (updateAxis fl now rd j s)) = movePhase s"
    and "minDelay (fst (updateAxis fl now rd j s)) = minDelay s"
    and "maxDelay (fst (updateAxis fl now rd j s)) = maxDelay s"
proof -
  let ?s' = "fst (updateAxis fl now rd j s)"
  consider (idle) "\<not> active s" | (seek) "homing s" "active s" "\<not> paused s"
    using assms by (auto simp: homeSeek_def)
  then have all: "homeSeek ?s' \<and> speed ?s' = speed s \<and> currentDelay ?s' = currentDelay s
      \<and> stepsTaken ?s' = stepsTaken s \<and> movePhase ?s' = movePhase s
      \<and> minDelay ?s' = minDelay s \<and> maxDelay ?s' = maxDelay s"
  proof cases
    case idle
    then show ?thesis using assms by (simp add: updateAxis_idle)
  next
    case seek
    show ?thesis
      by (cases "stepDue now s"; cases "rd (home s) = LOW")
         (simp_all add: updateAxis_homing[OF seek(2,3,1)] Let_def homeSeek_def seek)
  qed
  from all show "homeSeek ?s'" by blast
  from all show "speed ?s' = speed s" by blast
  from all show "currentDelay ?s' = currentDelay s" by blast
  from all show "stepsTaken ?s' = stepsTaken s" by blast
  from all show "movePhase ?s' = movePhase s" by blast
  from all show "minDelay ?s' = minDelay s" by blast
  from all show "maxDelay ?s' = maxDelay s" by blast
qed

lemma homeSeek_run:
  assumes "homeSeek s"
  shows "homeSeek (finalState s (runAxis fl j es s))
       \<and> speed (finalState s (runAxis fl j es s)) = speed s
       \<and> currentDelay (finalState s (runAxis fl j es s)) = currentDelay s
       \<and> stepsTaken (finalState s (runAxis fl j es s)) = stepsTaken s
       \<and> movePhase (finalState s (runAxis fl j es s)) = movePhase s
       \<and> minDelay (finalState s (runAxis fl j es s)) = minDelay s
       \<and> maxDelay (finalState s (runAxis fl j es s)) = maxDelay s"
  using assms
proof (induction es arbitrary: s)
  case Nil
  then show ?case by (simp add: finalState_Nil)
next
  case (Cons e es)
  note t = homeSeek_tick[OF Cons.prems, where fl=fl and now="fst e" and rd="snd e" and j=j]
  show ?case using Cons.IH[OF t(1)] t(2-7)
    by (simp add: Let_def finalState_Cons)
qed

lemma updateAxis_home_reached:
  assumes "active s" "\<not> paused s" "homing s" "stepDue now s" "rd (home s) = LOW"
  shows "updateAxis fl now rd j s =
           (s\<lparr>position := 0, lastStepTime := now, active := False, homing := False\<rparr>,
            StepPulse (stepPin s)
              # (if enableConfigured s then [DigitalWrite (enablePin s) HIGH] else [])
              @ [StepperDone j 0])"
  using assms by (simp add: updateAxis_homing Let_def)

text \<open>
  Claim C2, as amended. A home command on a valid axis returns, whatever the position and direction of the
  axis were, with the axis homing, active, and its speed set to the commanded delay (1000 when
  none is given). In every state that the scheduler reaches from there while the axis is
  still homing: the axis is active and not paused; \<open>speed\<close> and \<open>currentDelay\<close> are the delay of
  the home command, the step is due exactly when the elapsed time reaches that delay, and
  \<open>stepsTaken\<close> and \<open>movePhase\<close> are as they were before the command (no acceleration). And in
  a tick where the step is due and the home switch reads triggered, the axis record changes in
  \<open>position\<close> (set to 0), \<open>homing\<close> and \<open>active\<close> (both false) and the time of the last step;
  the axis emits the pulse, the write that disables the enable line if one is configured, and
  one move-complete event with position 0, the only one of this axis in the tick. In a tick
  where no step is due the home switch is not read: the axis record stays as it is and the
  axis emits nothing, whatever the pins read.
\<close>

theorem homing_ends_at_zero:
  assumes "length steppers = MAX_STEPPERS" and "inArray ident"
  shows "\<exists>st0 out0.
           handleCommand now rd0 (HomeStepper ident spd) steppers = Inr (st0, out0)
         \<and> homing (st0 ! nat ident) \<and> active (st0 ! nat ident)
         \<and> speed (st0 ! nat ident) = (case spd of Some v \<Rightarrow> v | None \<Rightarrow> 1000)
         \<and> (\<forall>es. homing (finalState st0 (run fl es st0) ! nat ident) \<longrightarrow>
               active (finalState st0 (run fl es st0) ! nat ident)
             \<and> \<not> paused (finalState st0 (run fl es st0) ! nat ident)
             \<and> speed (finalState st0 (run fl es st0) ! nat ident) = speed (st0 ! nat ident)
             \<and> currentDelay (finalState st0 (run fl es st0) ! nat ident) = speed (st0 ! nat ident)
             \<and> stepsTaken (finalState st0 (run fl es st0) ! nat ident) = stepsTaken (steppers ! nat ident)
             \<and> movePhase (finalState st0 (run fl es st0) ! nat ident) = movePhase (steppers ! nat ident)
             \<and> (\<forall>t. stepDue t (finalState st0 (run fl es st0) ! nat ident)
                      = ((word_of_int (speed (st0 ! nat ident)) :: 32 word)
                           \<le> t - lastStepTime (finalState st0 (run fl es st0) ! nat ident)))
             \<and> (\<forall>t rd. stepDue t (finalState st0 (run fl es st0) ! nat ident)
                        \<and> rd (nat ident) (home (finalState st0 (run fl es st0) ! nat ident)) = LOW \<longrightarrow>
                   fst (updateSteppers fl t rd (finalState st0 (run fl es st0))) ! nat ident
                     = (finalState st0 (run fl es st0) ! nat ident)
                         \<lparr>position := 0, lastStepTime := t, active := False, homing := False\<rparr>
                 \<and> stepperDoneOf ident (snd (updateSteppers fl t rd (finalState st0 (run fl es st0))))
                     = [StepperDone ident 0]
                 \<and> snd (updateAxis fl t (rd (nat ident)) ident (finalState st0 (run fl es st0) ! nat ident))
                     = StepPulse (stepPin (finalState st0 (run fl es st0) ! nat ident))
                         # (if enableConfigured (finalState st0 (run fl es st0) ! nat ident)
                            then [DigitalWrite (enablePin (finalState st0 (run fl es st0) ! nat ident)) HIGH]
                            else [])
                         @ [StepperDone ident 0]))
         \<and> (\<forall>es t rd. homing (finalState st0 (run fl es st0) ! nat ident)
                      \<and> \<not> stepDue t (finalState st0 (run fl es st0) ! nat ident) \<longrightarrow>
                fst (updateSteppers fl t rd (finalState st0 (run fl es st0))) ! nat ident
                  = finalState st0 (run fl es st0) ! nat ident
              \<and> snd (updateAxis fl t (rd (nat ident)) ident (finalState st0 (run fl es st0) ! nat ident)) = [])"
proof -
  let ?i = "nat ident"
  let ?s0 = "fst (homeAxis now spd (steppers ! ?i))"
  let ?st0 = "steppers[?i := ?s0]"
  let ?v = "case spd of Some v \<Rightarrow> v | None \<Rightarrow> 1000"
  have i: "?i < MAX_STEPPERS" "int ?i = ident"
    using assms(2) by (simp_all add: inArray_def MAX_STEPPERS_def nat_less_iff)
  have len0: "length ?st0 = MAX_STEPPERS" using assms(1) by simp
  have n: "?st0 ! ?i = ?s0" using assms(1) i(1) by simp
  have cmd: "handleCommand now rd0 (HomeStepper ident spd) steppers
               = Inr (?st0, snd (homeAxis now spd (steppers ! ?i)))"
    by (rule homeStepper_valid[OF assms(2)])
  have hs: "homeSeek ?s0" by (simp add: homeSeek_def homeAxis_fields)
  have body: "homing (finalState ?st0 (run fl es ?st0) ! ?i) \<longrightarrow>
               active (finalState ?st0 (run fl es ?st0) ! ?i)
             \<and> \<not> paused (finalState ?st0 (run fl es ?st0) ! ?i)
             \<and> speed (finalState ?st0 (run fl es ?st0) ! ?i) = speed ?s0
             \<and> currentDelay (finalState ?st0 (run fl es ?st0) ! ?i) = speed ?s0
             \<and> stepsTaken (finalState ?st0 (run fl es ?st0) ! ?i) = stepsTaken (steppers ! ?i)
             \<and> movePhase (finalState ?st0 (run fl es ?st0) ! ?i) = movePhase (steppers ! ?i)
             \<and> (\<forall>t. stepDue t (finalState ?st0 (run fl es ?st0) ! ?i)
                      = ((word_of_int (speed ?s0) :: 32 word)
                           \<le> t - lastStepTime (finalState ?st0 (run fl es ?st0) ! ?i)))
             \<and> (\<forall>t rd. stepDue t (finalState ?st0 (run fl es ?st0) ! ?i)
                        \<and> rd ?i (home (finalState ?st0 (run fl es ?st0) ! ?i)) = LOW \<longrightarrow>
                   fst (updateSteppers fl t rd (finalState ?st0 (run fl es ?st0))) ! ?i
                     = (finalState ?st0 (run fl es ?st0) ! ?i)
                         \<lparr>position := 0, lastStepTime := t, active := False, homing := False\<rparr>
                 \<and> stepperDoneOf ident (snd (updateSteppers fl t rd (finalState ?st0 (run fl es ?st0))))
                     = [StepperDone ident 0]
                 \<and> snd (updateAxis fl t (rd ?i) ident (finalState ?st0 (run fl es ?st0) ! ?i))
                     = StepPulse (stepPin (finalState ?st0 (run fl es ?st0) ! ?i))
                         # (if enableConfigured (finalState ?st0 (run fl es ?st0) ! ?i)
                            then [DigitalWrite (enablePin (finalState ?st0 (run fl es ?st0) ! ?i)) HIGH]
                            else [])
                         @ [StepperDone ident 0])" for es
  proof
    let ?st = "finalState ?st0 (run fl es ?st0)"
    let ?fin = "finalState ?s0 (runAxis fl ident (axisView ?i es) ?s0)"
    assume hom: "homing (?st ! ?i)"
    have fs: "?st ! ?i = ?fin"
      using finalState_axis[OF len0 i(1), of fl es] unfolding i(2) n .
    have lst: "length ?st = MAX_STEPPERS"
      using run_axis[OF len0 i(1), of fl es] len0
      by (cases "run fl es ?st0 = []") (simp_all add: finalState_def last_map)
    note r = homeSeek_run[OF hs, where fl=fl and j=ident and es="axisView ?i es"]
    from r have hk: "homeSeek ?fin" and sp: "speed ?fin = speed ?s0" and cd: "currentDelay ?fin = currentDelay ?s0"
      and stk: "stepsTaken ?fin = stepsTaken ?s0" and mp: "movePhase ?fin = movePhase ?s0"
      by blast+
    from hom hk have ap: "active ?fin" "\<not> paused ?fin" "homing ?fin"
      unfolding fs homeSeek_def by blast+
    have cd': "currentDelay ?fin = speed ?s0" using cd by (simp add: homeAxis_fields)
    have due: "\<forall>t. stepDue t ?fin = ((word_of_int (speed ?s0) :: 32 word) \<le> t - lastStepTime ?fin)"
      using sp cd' by (simp add: stepDue_def)
    have fin: "fst (updateSteppers fl t rd ?st) ! ?i
                 = ?fin\<lparr>position := 0, lastStepTime := t, active := False, homing := False\<rparr>
             \<and> stepperDoneOf ident (snd (updateSteppers fl t rd ?st)) = [StepperDone ident 0]
             \<and> snd (updateAxis fl t (rd ?i) ident ?fin)
                 = StepPulse (stepPin ?fin)
                     # (if enableConfigured ?fin then [DigitalWrite (enablePin ?fin) HIGH] else [])
                     @ [StepperDone ident 0]"
      if d: "stepDue t ?fin" and l: "rd ?i (home ?fin) = LOW" for t rd
    proof -
      note u = updateAxis_home_reached[where rd="rd ?i" and s="?fin" and now=t and fl=fl and j=ident, OF ap d l]
      have a: "fst (updateSteppers fl t rd ?st) ! ?i = fst (updateAxis fl t (rd ?i) ident ?fin)"
        using updateSteppers_nth[OF lst i(1), of fl t rd] unfolding i(2) fs .
      have b: "stepperDoneOf ident (snd (updateSteppers fl t rd ?st))
                = stepperDoneOf ident (snd (updateAxis fl t (rd ?i) ident ?fin))"
        using updateSteppers_done[OF lst i(1), of fl t rd] unfolding i(2) fs .
      show ?thesis unfolding a b u by (simp add: stepperDoneOf_def)
    qed
    show "active (?st ! ?i)
             \<and> \<not> paused (?st ! ?i)
             \<and> speed (?st ! ?i) = speed ?s0
             \<and> currentDelay (?st ! ?i) = speed ?s0
             \<and> stepsTaken (?st ! ?i) = stepsTaken (steppers ! ?i)
             \<and> movePhase (?st ! ?i) = movePhase (steppers ! ?i)
             \<and> (\<forall>t. stepDue t (?st ! ?i)
                      = ((word_of_int (speed ?s0) :: 32 word) \<le> t - lastStepTime (?st ! ?i)))
             \<and> (\<forall>t rd. stepDue t (?st ! ?i) \<and> rd ?i (home (?st ! ?i)) = LOW \<longrightarrow>
                   fst (updateSteppers fl t rd ?st) ! ?i
                     = (?st ! ?i)\<lparr>position := 0, lastStepTime := t, active := False, homing := False\<rparr>
                 \<and> stepperDoneOf ident (snd (updateSteppers fl t rd ?st)) = [StepperDone ident 0]
                 \<and> snd (updateAxis fl t (rd ?i) ident (?st ! ?i))
                     = StepPulse (stepPin (?st ! ?i))
                         # (if enableConfigured (?st ! ?i)
                            then [DigitalWrite (enablePin (?st ! ?i)) HIGH]
                            else [])
                         @ [StepperDone ident 0])"
      unfolding fs
      using ap sp cd' stk mp due fin by (simp add: homeAxis_fields)
  qed
  have idle: "homing (finalState ?st0 (run fl es ?st0) ! ?i)
                \<and> \<not> stepDue t (finalState ?st0 (run fl es ?st0) ! ?i) \<longrightarrow>
                fst (updateSteppers fl t rd (finalState ?st0 (run fl es ?st0))) ! ?i
                  = finalState ?st0 (run fl es ?st0) ! ?i
              \<and> snd (updateAxis fl t (rd ?i) ident (finalState ?st0 (run fl es ?st0) ! ?i)) = []"
    for es t rd
  proof
    let ?st = "finalState ?st0 (run fl es ?st0)"
    let ?fin = "finalState ?s0 (runAxis fl ident (axisView ?i es) ?s0)"
    assume h: "homing (?st ! ?i) \<and> \<not> stepDue t (?st ! ?i)"
    have fs: "?st ! ?i = ?fin"
      using finalState_axis[OF len0 i(1), of fl es] unfolding i(2) n .
    have lst: "length ?st = MAX_STEPPERS"
      using run_axis[OF len0 i(1), of fl es] len0
      by (cases "run fl es ?st0 = []") (simp_all add: finalState_def last_map)
    from homeSeek_run[OF hs, where fl=fl and j=ident and es="axisView ?i es"]
    have hk: "homeSeek ?fin" by blast
    from h hk have ap: "active ?fin" "\<not> paused ?fin" "homing ?fin" and nd: "\<not> stepDue t ?fin"
      unfolding fs homeSeek_def by blast+
    have u: "updateAxis fl t (rd ?i) ident ?fin = (?fin, [])"
      unfolding updateAxis_homing[OF ap] using nd by simp
    have a: "fst (updateSteppers fl t rd ?st) ! ?i = fst (updateAxis fl t (rd ?i) ident ?fin)"
      using updateSteppers_nth[OF lst i(1), of fl t rd] unfolding i(2) fs .
    show "fst (updateSteppers fl t rd ?st) ! ?i = ?st ! ?i
        \<and> snd (updateAxis fl t (rd ?i) ident (?st ! ?i)) = []"
      unfolding a fs u by simp
  qed
  show ?thesis
    apply (rule exI[of _ ?st0], rule exI[of _ "snd (homeAxis now spd (steppers ! ?i))"])
    apply (unfold n)
    apply (intro conjI)
         apply (rule cmd)
        apply (simp add: homeAxis_fields)
       apply (simp add: homeAxis_fields)
      apply (simp add: homeAxis_fields)
     apply (rule allI)
     apply (rule body)
    apply (intro allI)
    apply (rule idle)
    done
qed

text \<open>
  Claim C2 as stated fails when the home switch reads triggered and no step is due. After a
  home command at time 0 with the default delay 1000, a tick at time 500 with every pin low
  (the home switch triggered) leaves the axis as it was: still homing and active, at position
  37, and nothing is emitted.
\<close>

theorem home_switch_not_read_before_step_counterexample:
  "handleCommand 0 released (HomeStepper 0 None) awayFromHome = Inr (homingStart, [DigitalWrite 0 LOW])
   \<and> readLimitSwitch (\<lambda>_. LOW) (home (homingStart ! 0))
   \<and> updateSteppers exact 500 (\<lambda>_ _. LOW) homingStart = (homingStart, [])
   \<and> homing (homingStart ! 0) \<and> active (homingStart ! 0) \<and> position (homingStart ! 0) = 37"
proof -
  have a: "handleCommand 0 released (HomeStepper 0 None) awayFromHome = Inr (homingStart, [DigitalWrite 0 LOW])"
    by (simp add: onAxis_def inArray_def MAX_STEPPERS_def homeAxis_def Let_def awayFromHome_def
          homingStart_def setupStepper_def)
  have b: "updateSteppers exact 500 (\<lambda>_ _. LOW) homingStart = (homingStart, [])"
    by (simp add: updateSteppers_def upt_MAX homingStart_def setupStepper_def updateAxis_def
          stepDue_def Let_def)
  have c: "readLimitSwitch (\<lambda>_. LOW) (home (homingStart ! 0))"
    "homing (homingStart ! 0)" "active (homingStart ! 0)" "position (homingStart ! 0) = 37"
    by (simp_all add: readLimitSwitch_def homingStart_def)
  from a b c show ?thesis by (intro conjI)
qed

theorem homing_ends_at_zero_witness:
  "length awayFromHome = MAX_STEPPERS \<and> inArray 0
   \<and> handleCommand 0 (\<lambda>_. HIGH) (HomeStepper 0 None) awayFromHome = Inr (homingStart, [DigitalWrite 0 LOW])
   \<and> homing (finalState homingStart (run exact [(500, \<lambda>_ _. HIGH)] homingStart) ! nat 0)
   \<and> position (finalState homingStart (run exact [(500, \<lambda>_ _. HIGH)] homingStart) ! nat 0) = 37
   \<and> currentDelay (finalState homingStart (run exact [(500, \<lambda>_ _. HIGH)] homingStart) ! nat 0) = 1000
   \<and> stepDue 1000 (finalState homingStart (run exact [(500, \<lambda>_ _. HIGH)] homingStart) ! nat 0)
   \<and> position (fst (updateSteppers exact 1000 (\<lambda>_ _. LOW)
                    (finalState homingStart (run exact [(500, \<lambda>_ _. HIGH)] homingStart))) ! nat 0) = 0
   \<and> stepperDoneOf 0 (snd (updateSteppers exact 1000 (\<lambda>_ _. LOW)
                    (finalState homingStart (run exact [(500, \<lambda>_ _. HIGH)] homingStart))))
        = [StepperDone 0 0]"
proof -
  let ?es = "[(500 :: 32 word, \<lambda>(_::nat) (_::int). HIGH)]"
  let ?fin = "finalState homingStart (run exact ?es homingStart)"
  have h: "length awayFromHome = MAX_STEPPERS" "inArray 0"
    by (simp_all add: awayFromHome_def inArray_def MAX_STEPPERS_def)
  have ev: "handleCommand 0 (\<lambda>_. HIGH) (HomeStepper 0 None) awayFromHome = Inr (homingStart, [DigitalWrite 0 LOW])"
    by (simp add: onAxis_def inArray_def MAX_STEPPERS_def homeAxis_def Let_def awayFromHome_def
          homingStart_def setupStepper_def)
  have fin: "?fin = homingStart"
    by (simp add: finalState_def updateSteppers_def upt_MAX homingStart_def setupStepper_def
          updateAxis_def stepDue_def Let_def)
  have p: "homing (?fin ! nat 0)" "position (?fin ! nat 0) = 37" "stepDue 1000 (?fin ! nat 0)"
    "(\<lambda>(_::nat) (_::int). LOW) (nat 0) (home (?fin ! nat 0)) = LOW"
    unfolding fin by (simp_all add: homingStart_def setupStepper_def stepDue_def)
  from homing_ends_at_zero[OF h, of 0 "\<lambda>_. HIGH" None exact] obtain st0 out0 where
    c: "handleCommand 0 (\<lambda>_. HIGH) (HomeStepper 0 None) awayFromHome = Inr (st0, out0)"
    and sp: "speed (st0 ! nat 0) = (case None of Some v \<Rightarrow> v | None \<Rightarrow> 1000)"
    and b: "\<forall>es. homing (finalState st0 (run exact es st0) ! nat 0) \<longrightarrow>
               active (finalState st0 (run exact es st0) ! nat 0)
             \<and> \<not> paused (finalState st0 (run exact es st0) ! nat 0)
             \<and> speed (finalState st0 (run exact es st0) ! nat 0) = speed (st0 ! nat 0)
             \<and> currentDelay (finalState st0 (run exact es st0) ! nat 0) = speed (st0 ! nat 0)
             \<and> stepsTaken (finalState st0 (run exact es st0) ! nat 0) = stepsTaken (awayFromHome ! nat 0)
             \<and> movePhase (finalState st0 (run exact es st0) ! nat 0) = movePhase (awayFromHome ! nat 0)
             \<and> (\<forall>t. stepDue t (finalState st0 (run exact es st0) ! nat 0)
                      = ((word_of_int (speed (st0 ! nat 0)) :: 32 word)
                           \<le> t - lastStepTime (finalState st0 (run exact es st0) ! nat 0)))
             \<and> (\<forall>t rd. stepDue t (finalState st0 (run exact es st0) ! nat 0)
                        \<and> rd (nat 0) (home (finalState st0 (run exact es st0) ! nat 0)) = LOW \<longrightarrow>
                   fst (updateSteppers exact t rd (finalState st0 (run exact es st0))) ! nat 0
                     = (finalState st0 (run exact es st0) ! nat 0)
                         \<lparr>position := 0, lastStepTime := t, active := False, homing := False\<rparr>
                 \<and> stepperDoneOf 0 (snd (updateSteppers exact t rd (finalState st0 (run exact es st0))))
                     = [StepperDone 0 0]
                 \<and> snd (updateAxis exact t (rd (nat 0)) 0 (finalState st0 (run exact es st0) ! nat 0))
                     = StepPulse (stepPin (finalState st0 (run exact es st0) ! nat 0))
                         # (if enableConfigured (finalState st0 (run exact es st0) ! nat 0)
                            then [DigitalWrite (enablePin (finalState st0 (run exact es st0) ! nat 0)) HIGH]
                            else [])
                         @ [StepperDone 0 0])"
    by blast
  from c ev have st0: "st0 = homingStart" by simp
  note b' = b[unfolded st0, rule_format, OF p(1)]
  from b' sp have cd: "currentDelay (?fin ! nat 0) = 1000" unfolding st0 by simp
  from b' have "\<forall>t rd. stepDue t (?fin ! nat 0) \<and> rd (nat 0) (home (?fin ! nat 0)) = LOW \<longrightarrow>
                   fst (updateSteppers exact t rd ?fin) ! nat 0
                     = (?fin ! nat 0)\<lparr>position := 0, lastStepTime := t, active := False, homing := False\<rparr>
                 \<and> stepperDoneOf 0 (snd (updateSteppers exact t rd ?fin)) = [StepperDone 0 0]"
    by blast
  from this[rule_format, of 1000 "\<lambda>_ _. LOW", OF conjI[OF p(3) p(4)]]
  have r: "position (fst (updateSteppers exact 1000 (\<lambda>_ _. LOW) ?fin) ! nat 0) = 0"
    "stepperDoneOf 0 (snd (updateSteppers exact 1000 (\<lambda>_ _. LOW) ?fin)) = [StepperDone 0 0]"
    by simp_all
  show ?thesis using h ev p(1,2,3) cd r by blast
qed

subsection \<open>Rounding and the delay curve\<close>

lemma fl_mono: "float_rounding fl \<Longrightarrow> x \<le> y \<Longrightarrow> fl x \<le> fl y"
  by (simp add: float_rounding_def)

lemma fl_int: "float_rounding fl \<Longrightarrow> \<bar>n\<bar> \<le> 2 ^ 24 \<Longrightarrow> fl (of_int n) = of_int n"
  by (simp add: float_rounding_def)

lemma fl_0: "float_rounding fl \<Longrightarrow> fl 0 = 0"
  using fl_int[of fl 0] by simp

lemma fl_1: "float_rounding fl \<Longrightarrow> fl 1 = 1"
  using fl_int[of fl 1] by simp

lemma fl_nonneg: "float_rounding fl \<Longrightarrow> 0 \<le> x \<Longrightarrow> 0 \<le> fl x"
  using fl_mono[of fl 0 x] fl_0[of fl] by simp

lemma fl_le_1: "float_rounding fl \<Longrightarrow> x \<le> 1 \<Longrightarrow> fl x \<le> 1"
  using fl_mono[of fl x 1] fl_1[of fl] by simp

lemma fl_pos_int: "float_rounding fl \<Longrightarrow> 0 < n \<Longrightarrow> 1 \<le> fl (of_int n)"
  using fl_mono[of fl 1 "of_int n"] fl_1[of fl] by simp

lemma float_to_int_mono: "x \<le> y \<Longrightarrow> float_to_int x \<le> float_to_int y"
proof -
  assume xy: "x \<le> y"
  consider "0 \<le> x" | "x < 0" "0 \<le> y" | "y < 0" using xy by linarith
  then show ?thesis
  proof cases
    case 1
    then show ?thesis using xy by (simp add: float_to_int_def floor_mono)
  next
    case 2
    have a: "\<lceil>x\<rceil> \<le> 0" using 2(1) by (simp add: ceiling_le_iff)
    have b: "0 \<le> \<lfloor>y\<rfloor>" using 2(2) by simp
    from a b have "\<lceil>x\<rceil> \<le> \<lfloor>y\<rfloor>" by (rule order_trans)
    then show ?thesis using 2 by (simp add: float_to_int_def)
  next
    case 3
    then show ?thesis using xy by (simp add: float_to_int_def ceiling_mono)
  qed
qed

lemma float_to_int_0: "float_to_int 0 = 0"
  by (simp add: float_to_int_def)

lemma float_to_int_of_int: "float_to_int (of_int n) = n"
  by (simp add: float_to_int_def)

lemma float_to_int_range:
  assumes "0 \<le> x" "x \<le> of_int D"
  shows "0 \<le> float_to_int x \<and> float_to_int x \<le> D"
  using float_to_int_mono[OF assms(1)] float_to_int_mono[OF assms(2)]
  by (simp add: float_to_int_0 float_to_int_of_int)


lemma progress_nonneg:
  assumes "float_rounding fl" "0 < n" "0 \<le> k"
  shows "0 \<le> fl (fl (of_int k) / fl (of_int n))"
proof -
  have p: "0 < fl (of_int n)" using fl_pos_int[OF assms(1,2)] by linarith
  have "0 \<le> fl (of_int k)" using assms(3) by (intro fl_nonneg[OF assms(1)]) simp
  then show ?thesis using p by (intro fl_nonneg[OF assms(1)]) simp
qed

lemma progress_le_1:
  assumes "float_rounding fl" "0 < n" "k \<le> n"
  shows "fl (fl (of_int k) / fl (of_int n)) \<le> 1"
proof -
  have p: "0 < fl (of_int n)" using fl_pos_int[OF assms(1,2)] by linarith
  have "fl (of_int k) \<le> fl (of_int n)" using assms(3) by (intro fl_mono[OF assms(1)]) simp
  then have "fl (of_int k) / fl (of_int n) \<le> 1" using p by simp
  then show ?thesis by (rule fl_le_1[OF assms(1)])
qed


lemma ramp_range:
  assumes "float_rounding fl" "0 \<le> D" "D \<le> 2 ^ 24" "0 \<le> p" "p \<le> 1"
  shows "0 \<le> float_to_int (fl (fl (of_int D) * p)) \<and> float_to_int (fl (fl (of_int D) * p)) \<le> D"
proof -
  have e: "fl (of_int D) = of_int D" using assms(2,3) by (intro fl_int[OF assms(1)]) simp
  have d0: "(0::rat) \<le> of_int D" using assms(2) by simp
  have lo: "0 \<le> of_int D * p" using d0 assms(4) by simp
  have hi: "of_int D * p \<le> of_int D" using d0 assms(5) by (simp add: mult_left_le)
  have "0 \<le> fl (of_int D * p)" using lo by (rule fl_nonneg[OF assms(1)])
  moreover have "fl (of_int D * p) \<le> of_int D"
    using fl_mono[OF assms(1) hi] e by simp
  ultimately show ?thesis unfolding e by (rule float_to_int_range)
qed

lemma ramp_nonneg:
  assumes "float_rounding fl" "0 \<le> D" "0 \<le> p"
  shows "0 \<le> float_to_int (fl (fl (of_int D) * p))"
proof -
  have "0 \<le> fl (of_int D)" using assms(2) by (intro fl_nonneg[OF assms(1)]) simp
  then have "0 \<le> fl (fl (of_int D) * p)" using assms(3) by (intro fl_nonneg[OF assms(1)]) simp
  then show ?thesis using float_to_int_mono[of 0] by (simp add: float_to_int_0)
qed









lemma calculateAccelDelay_range:
  assumes "float_rounding fl" "endDelay \<le> startDelay" "startDelay - endDelay \<le> 2 ^ 24"
    and "0 \<le> k" "k \<le> n"
  shows "endDelay \<le> calculateAccelDelay fl k n startDelay endDelay
       \<and> calculateAccelDelay fl k n startDelay endDelay \<le> startDelay"
proof (cases "n = 0")
  case True
  then show ?thesis using assms(2) by (simp add: calculateAccelDelay_def)
next
  case False
  then have n: "0 < n" using assms(4,5) by simp
  have "0 \<le> float_to_int (fl (fl (of_int (startDelay - endDelay)) * fl (fl (of_int k) / fl (of_int n))))
      \<and> float_to_int (fl (fl (of_int (startDelay - endDelay)) * fl (fl (of_int k) / fl (of_int n))))
          \<le> startDelay - endDelay"
    using assms(2,3)
    by (intro ramp_range[OF assms(1)] progress_nonneg[OF assms(1) n assms(4)]
          progress_le_1[OF assms(1) n assms(5)]) simp_all
  then show ?thesis using False by (simp add: calculateAccelDelay_def Let_def)
qed

lemma calculateDecelDelay_range:
  assumes "float_rounding fl" "startDelay \<le> endDelay" "endDelay - startDelay \<le> 2 ^ 24"
    and "0 \<le> k" "k \<le> n"
  shows "startDelay \<le> calculateDecelDelay fl k n startDelay endDelay
       \<and> calculateDecelDelay fl k n startDelay endDelay \<le> endDelay"
proof (cases "n = 0")
  case True
  then show ?thesis using assms(2) by (simp add: calculateDecelDelay_def)
next
  case False
  then have n: "0 < n" using assms(4,5) by simp
  have "0 \<le> float_to_int (fl (fl (of_int (endDelay - startDelay)) * fl (fl (of_int k) / fl (of_int n))))
      \<and> float_to_int (fl (fl (of_int (endDelay - startDelay)) * fl (fl (of_int k) / fl (of_int n))))
          \<le> endDelay - startDelay"
    using assms(2,3)
    by (intro ramp_range[OF assms(1)] progress_nonneg[OF assms(1) n assms(4)]
          progress_le_1[OF assms(1) n assms(5)]) simp_all
  then show ?thesis using False by (simp add: calculateDecelDelay_def Let_def)
qed


lemma float_rounding_exact: "float_rounding exact"
  by (simp add: float_rounding_def exact_def)

subsection \<open>Progress of an accelerated move\<close>

lemma updatePhase_cases:
  "movePhase s = 0 \<Longrightarrow> stepsTaken s + 1 < accelSteps s \<Longrightarrow>
     updatePhase fl s = s\<lparr>stepsTaken := stepsTaken s + 1,
       currentDelay := calculateAccelDelay fl (stepsTaken s + 1) (accelSteps s) (maxDelay s) (speed s)\<rparr>"
  "movePhase s = 0 \<Longrightarrow> \<not> stepsTaken s + 1 < accelSteps s \<Longrightarrow>
     updatePhase fl s = s\<lparr>stepsTaken := stepsTaken s + 1, movePhase := 1, currentDelay := speed s\<rparr>"
  "movePhase s = 1 \<Longrightarrow> totalSteps s - (stepsTaken s + 1) \<le> decelSteps s \<Longrightarrow>
     updatePhase fl s = s\<lparr>stepsTaken := stepsTaken s + 1, movePhase := 2\<rparr>"
  "movePhase s = 1 \<Longrightarrow> \<not> totalSteps s - (stepsTaken s + 1) \<le> decelSteps s \<Longrightarrow>
     updatePhase fl s = s\<lparr>stepsTaken := stepsTaken s + 1\<rparr>"
  "movePhase s = 2 \<Longrightarrow>
     updatePhase fl s = s\<lparr>stepsTaken := stepsTaken s + 1,
       currentDelay := calculateDecelDelay fl (stepsTaken s + 1 - (totalSteps s - decelSteps s))
                         (decelSteps s) (speed s) (maxDelay s)\<rparr>"
  by (simp_all add: updatePhase_def Let_def)

text \<open>What a tick of a moving axis that uses acceleration can do.\<close>

lemma updateAxis_accelerated:
  assumes "active s" "\<not> paused s" "\<not> homing s" "useAcceleration s"
  shows "updateAxis fl now rd j s =
     (if readLimitSwitch rd (if direction s then limitA s else limitB s) then
        (s\<lparr>active := False\<rparr>,
         (if enableConfigured s then [DigitalWrite (enablePin s) HIGH] else [])
           @ [LimitHit j (if direction s then ''limit_a'' else ''limit_b'') (position s)])
      else if stepDue now s then
        (let s3 = updatePhase fl (s\<lparr>position := position s + (if direction s then 1 else - 1),
                                     lastStepTime := now\<rparr>)
         in if position s + (if direction s then 1 else - 1) = target s
            then (s3\<lparr>active := False\<rparr>,
                  StepPulse (stepPin s)
                    # (if enableConfigured s then [DigitalWrite (enablePin s) HIGH] else [])
                    @ [StepperDone j (target s)])
            else (s3, [StepPulse (stepPin s)]))
      else (s, []))"
  using assms by (simp add: updateAxis_moving Let_def updatePhase_fields)

lemma progressInv_frame:
  assumes "progressInv s"
  shows "progressInv (s\<lparr>active := False\<rparr>)"
  using assms by (simp add: progressInv_def)

lemma progressInv_step:
  fixes s :: StepperConfig and fl :: rounding and now :: "32 word"
  assumes "progressInv s" "active s"
  defines "s3 \<equiv> updatePhase fl (s\<lparr>position := position s + (if direction s then 1 else - 1),
                                     lastStepTime := now\<rparr>)"
  shows "progressInv (s3\<lparr>active := False\<rparr>)"
    and "position s + (if direction s then 1 else - 1) \<noteq> target s \<Longrightarrow> progressInv s3"
    and "position s + (if direction s then 1 else - 1) = target s \<Longrightarrow>
           stepsTaken s3 = totalSteps s \<and> (accelSteps s < totalSteps s \<longrightarrow> movePhase s3 = 2)
             \<and> (\<not> accelSteps s < totalSteps s \<longrightarrow> movePhase s3 = 1)"
    and "stepsTaken s3 = stepsTaken s + 1"
    and "movePhase s3 = movePhase s \<or> movePhase s3 = movePhase s + 1"
proof -
  let ?s2 = "s\<lparr>position := position s + (if direction s then 1 else - 1), lastStepTime := now\<rparr>"
  from assms(1) consider
      (a0) "movePhase s = 0" "stepsTaken s + 1 < accelSteps s"
    | (a1) "movePhase s = 0" "\<not> stepsTaken s + 1 < accelSteps s"
    | (c0) "movePhase s = 1" "totalSteps s - (stepsTaken s + 1) \<le> decelSteps s"
    | (c1) "movePhase s = 1" "\<not> totalSteps s - (stepsTaken s + 1) \<le> decelSteps s"
    | (d) "movePhase s = 2"
    unfolding progressInv_def by blast
  then have "progressInv (s3\<lparr>active := False\<rparr>)
      \<and> (position s + (if direction s then 1 else - 1) \<noteq> target s \<longrightarrow> progressInv s3)
      \<and> (position s + (if direction s then 1 else - 1) = target s \<longrightarrow>
           stepsTaken s3 = totalSteps s \<and> (accelSteps s < totalSteps s \<longrightarrow> movePhase s3 = 2)
             \<and> (\<not> accelSteps s < totalSteps s \<longrightarrow> movePhase s3 = 1))
      \<and> stepsTaken s3 = stepsTaken s + 1
      \<and> (movePhase s3 = movePhase s \<or> movePhase s3 = movePhase s + 1)"
  proof cases
    case a0
    have e: "s3 = ?s2\<lparr>stepsTaken := stepsTaken s + 1,
       currentDelay := calculateAccelDelay fl (stepsTaken s + 1) (accelSteps s) (maxDelay s) (speed s)\<rparr>"
      unfolding s3_def using a0 by (subst updatePhase_cases(1)) simp_all
    show ?thesis unfolding e using assms(1,2) a0
      by (cases "direction s") (auto simp: progressInv_def)
  next
    case a1
    have e: "s3 = ?s2\<lparr>stepsTaken := stepsTaken s + 1, movePhase := 1, currentDelay := speed s\<rparr>"
      unfolding s3_def using a1 by (subst updatePhase_cases(2)) simp_all
    show ?thesis unfolding e using assms(1,2) a1
      by (cases "direction s") (auto simp: progressInv_def)
  next
    case c0
    have e: "s3 = ?s2\<lparr>stepsTaken := stepsTaken s + 1, movePhase := 2\<rparr>"
      unfolding s3_def using c0 by (subst updatePhase_cases(3)) simp_all
    show ?thesis unfolding e using assms(1,2) c0
      by (cases "direction s") (auto simp: progressInv_def)
  next
    case c1
    have e: "s3 = ?s2\<lparr>stepsTaken := stepsTaken s + 1\<rparr>"
      unfolding s3_def using c1 by (subst updatePhase_cases(4)) simp_all
    show ?thesis unfolding e using assms(1,2) c1
      by (cases "direction s") (auto simp: progressInv_def)
  next
    case d
    have e: "s3 = ?s2\<lparr>stepsTaken := stepsTaken s + 1,
       currentDelay := calculateDecelDelay fl (stepsTaken s + 1 - (totalSteps s - decelSteps s))
                         (decelSteps s) (speed s) (maxDelay s)\<rparr>"
      unfolding s3_def using d by (subst updatePhase_cases(5)) simp_all
    show ?thesis unfolding e using assms(1,2) d
      by (cases "direction s") (auto simp: progressInv_def)
  qed
  then show "progressInv (s3\<lparr>active := False\<rparr>)"
    and "position s + (if direction s then 1 else - 1) \<noteq> target s \<Longrightarrow> progressInv s3"
    and "position s + (if direction s then 1 else - 1) = target s \<Longrightarrow>
           stepsTaken s3 = totalSteps s \<and> (accelSteps s < totalSteps s \<longrightarrow> movePhase s3 = 2)
             \<and> (\<not> accelSteps s < totalSteps s \<longrightarrow> movePhase s3 = 1)"
    and "stepsTaken s3 = stepsTaken s + 1"
    and "movePhase s3 = movePhase s \<or> movePhase s3 = movePhase s + 1"
    by blast+
qed

lemma progressInv_tick:
  fixes s :: StepperConfig and fl :: rounding and now :: "32 word" and rd :: pins and j :: int
  defines "s' \<equiv> fst (updateAxis fl now rd j s)" and "ev \<equiv> snd (updateAxis fl now rd j s)"
  assumes inv: "progressInv s"
  shows "progressInv s'
       \<and> totalSteps s' = totalSteps s \<and> accelSteps s' = accelSteps s \<and> decelSteps s' = decelSteps s
       \<and> target s' = target s \<and> direction s' = direction s
       \<and> (stepsTaken s' = stepsTaken s \<or> stepsTaken s' = stepsTaken s + 1)
       \<and> (movePhase s' = movePhase s \<or> movePhase s' = movePhase s + 1)
       \<and> (stepperDoneOf j ev = []
            \<or> (stepperDoneOf j ev = [StepperDone j (target s)] \<and> \<not> active s'
                \<and> stepsTaken s' = totalSteps s \<and> position s' = target s
                \<and> (accelSteps s < totalSteps s \<longrightarrow> movePhase s' = 2)
                \<and> (\<not> accelSteps s < totalSteps s \<longrightarrow> movePhase s' = 1)))"
proof (cases "active s")
  case False
  then have "updateAxis fl now rd j s = (s, [])" by (simp add: updateAxis_idle)
  then show ?thesis using inv by (simp add: s'_def ev_def stepperDoneOf_def)
next
  case True
  with inv have f: "\<not> paused s" "\<not> homing s" "useAcceleration s"
    by (simp_all add: progressInv_def)
  note u = updateAxis_accelerated[OF True f, of fl now rd j]
  let ?s3 = "updatePhase fl (s\<lparr>position := position s + (if direction s then 1 else - 1),
                                     lastStepTime := now\<rparr>)"
  note st = progressInv_step[OF inv True, of fl now]
  consider (limit) "readLimitSwitch rd (if direction s then limitA s else limitB s)"
    | (wait) "\<not> readLimitSwitch rd (if direction s then limitA s else limitB s)" "\<not> stepDue now s"
    | (last) "\<not> readLimitSwitch rd (if direction s then limitA s else limitB s)" "stepDue now s"
        "position s + (if direction s then 1 else - 1) = target s"
    | (step) "\<not> readLimitSwitch rd (if direction s then limitA s else limitB s)" "stepDue now s"
        "position s + (if direction s then 1 else - 1) \<noteq> target s"
    by blast
  then show ?thesis
  proof cases
    case limit
    then have e: "s' = s\<lparr>active := False\<rparr>" "stepperDoneOf j ev = []"
      unfolding s'_def ev_def u by (simp_all add: stepperDoneOf_def)
    show ?thesis unfolding e using progressInv_frame[OF inv] by simp
  next
    case wait
    then have e: "s' = s" "stepperDoneOf j ev = []"
      unfolding s'_def ev_def u by (simp_all add: stepperDoneOf_def)
    show ?thesis unfolding e using inv by simp
  next
    case last
    then have e: "s' = ?s3\<lparr>active := False\<rparr>" "stepperDoneOf j ev = [StepperDone j (target s)]"
      unfolding s'_def ev_def u by (simp_all add: stepperDoneOf_def Let_def)
    have p: "position ?s3 = target s" using last(3) by (simp add: updatePhase_fields)
    show ?thesis unfolding e using st(1) st(3)[OF last(3)] st(4,5) p
      by (simp add: updatePhase_fields)
  next
    case step
    then have e: "s' = ?s3" "stepperDoneOf j ev = []"
      unfolding s'_def ev_def u by (simp_all add: stepperDoneOf_def Let_def)
    show ?thesis unfolding e using st(2)[OF step(3)] st(4,5)
      by (simp add: updatePhase_fields)
  qed
qed







lemma startAcceleratedMove_phase:
  "movePhase (fst (startAcceleratedMove j t v s)) = (if 0 < accelSteps (fst (startAcceleratedMove j t v s)) then 0 else 1)"
  "currentDelay (fst (startAcceleratedMove j t v s)) = (if 0 < accelSteps (fst (startAcceleratedMove j t v s)) then maxDelay s else v)"
  by (simp_all add: startAcceleratedMove_flat)

lemma moveAxis_accelerated:
  assumes "useAcceleration s" "acceleration s > 0 \<or> deceleration s > 0"
  shows "fst (moveAxis now j steps dir spd s) =
     (fst (startAcceleratedMove j (position s + (if dir = 1 then steps else - steps)) spd
        (s\<lparr>target := position s + (if dir = 1 then steps else - steps), speed := spd,
           direction := (dir \<noteq> 0), homing := False\<rparr>)))\<lparr>lastStepTime := now\<rparr>"
  using assms by (simp add: moveAxis_def Let_def split_beta)

subsection \<open>The phases of a completed move\<close>






lemma moveAxis_profile:
  fixes s :: StepperConfig and now :: "32 word" and j steps dir spd :: int
  assumes "useAcceleration s" "acceleration s > 0 \<or> deceleration s > 0"
  defines "r \<equiv> fst (moveAxis now j steps dir spd s)"
  shows "totalSteps r = \<bar>steps\<bar>" "stepsTaken r = 0" "0 \<le> accelSteps r" "0 \<le> decelSteps r"
    "accelSteps r + decelSteps r \<le> totalSteps r"
    "movePhase r = (if 0 < accelSteps r then 0 else 1)"
    "currentDelay r = (if 0 < accelSteps r then maxDelay s else spd)"
proof -
  let ?t = "position s + (if dir = 1 then steps else - steps)"
  let ?s1 = "s\<lparr>target := ?t, speed := spd, direction := (dir \<noteq> 0), homing := False\<rparr>"
  let ?q = "fst (startAcceleratedMove j ?t spd ?s1)"
  have r: "r = ?q\<lparr>lastStepTime := now\<rparr>"
    unfolding r_def by (rule moveAxis_accelerated[OF assms(1,2)])
  have T: "\<bar>?t - position ?s1\<bar> = \<bar>steps\<bar>" by simp
  note st = startAcceleratedMove_steps[where s="?s1" and ident=j and targetPos="?t" and moveSpeed=spd]
  show "totalSteps r = \<bar>steps\<bar>" unfolding r using st(1) T by simp
  show "stepsTaken r = 0" unfolding r by (simp add: startAcceleratedMove_fields)
  show "0 \<le> accelSteps r" unfolding r using st(4) by simp
  show "0 \<le> decelSteps r" unfolding r using st(5) by simp
  show "accelSteps r + decelSteps r \<le> totalSteps r" unfolding r using st(6) by simp
  show "movePhase r = (if 0 < accelSteps r then 0 else 1)"
    unfolding r using startAcceleratedMove_phase(1)[of j ?t spd ?s1] by simp
  show "currentDelay r = (if 0 < accelSteps r then maxDelay s else spd)"
    unfolding r using startAcceleratedMove_phase(2)[of j ?t spd ?s1] by simp
qed

lemma headsForTarget_cases:
  "headsForTarget dir steps \<longleftrightarrow>
     (dir \<noteq> 0 \<longrightarrow> 0 \<le> (if dir = 1 then steps else - steps)) \<and> (dir = 0 \<longrightarrow> 0 \<le> steps)"
  by (auto simp add: headsForTarget_def)

lemma moveAxis_heading_progressInv:
  assumes "useAcceleration s" "acceleration s > 0 \<or> deceleration s > 0"
    and "dir \<noteq> 0 \<Longrightarrow> 0 \<le> (if dir = 1 then steps else - steps)" and "dir = 0 \<Longrightarrow> 0 \<le> steps"
  shows "progressInv (fst (moveAxis now j steps dir spd s))"
  using moveAxis_profile[OF assms(1,2), of now j steps dir spd] assms(1,3,4)
  unfolding progressInv_def
  by (auto simp: moveAxis_fields split: if_splits)




text \<open>The definitions that evaluate a command and a tick on a concrete registry.\<close>

lemmas eval_defs = onAxis_def inArray_def MAX_STEPPERS_def moveAxis_def levelOf_def startAcceleratedMove_def
  calculateAccelSteps_def calculateDecelSteps_def cdiv_def Let_def setupStepper_def numeral_2_eq_2
  updateSteppers_def upt_MAX updateAxis_def checkLimitSwitches_def readLimitSwitch_def stepDue_def
  afterStep_def updatePhase_def released_def allReleased_def










subsection \<open>Monotone delays within a phase\<close>



lemma updatePhase_frame:
  "updatePhase fl (s\<lparr>position := p, lastStepTime := t\<rparr>) = (updatePhase fl s)\<lparr>position := p, lastStepTime := t\<rparr>"
  by (simp add: updatePhase_def Let_def)






text \<open>The definitions that evaluate the delay curve with exact arithmetic.\<close>

lemmas ramp_eval_defs = calculateAccelDelay_def calculateDecelDelay_def exact_def float_to_int_def



subsection \<open>The derived acceleration flag\<close>

lemma updatePhase_ramp_config:
  "acceleration (updatePhase fl s) = acceleration s" "deceleration (updatePhase fl s) = deceleration s"
  by (simp_all add: updatePhase_def Let_def)

lemma updateAxis_derivedFlag:
  "derivedFlag (fst (updateAxis fl now rd j s)) = derivedFlag s"
proof (cases "active s \<and> \<not> paused s")
  case False
  then show ?thesis by (simp add: updateAxis_idle)
next
  case True
  show ?thesis
  proof (cases "homing s")
    case True
    with \<open>active s \<and> \<not> paused s\<close> show ?thesis
      by (cases "stepDue now s"; cases "rd (home s) = LOW")
         (simp_all add: updateAxis_homing Let_def derivedFlag_def)
  next
    case False
    with \<open>active s \<and> \<not> paused s\<close> show ?thesis
      by (cases "readLimitSwitch rd (if direction s then limitA s else limitB s)"; cases "stepDue now s";
          cases "useAcceleration s")
         (simp_all add: updateAxis_moving Let_def updatePhase_fields updatePhase_ramp_config derivedFlag_def)
  qed
qed

lemma derivedFlag_setup: "\<forall>s \<in> set setupSteppers. derivedFlag s"
  by (simp add: setupSteppers_def setupStepper_def derivedFlag_def)

lemma derivedFlag_tick:
  assumes "\<forall>s \<in> set steppers. derivedFlag s" and "length steppers = MAX_STEPPERS"
  shows "\<forall>s \<in> set (fst (updateSteppers fl now rd steppers)). derivedFlag s"
proof -
  have "fst (updateSteppers fl now rd steppers)
          = [fst (updateAxis fl now (rd 0) 0 (steppers ! 0)), fst (updateAxis fl now (rd 1) 1 (steppers ! 1))]"
    by (simp add: updateSteppers_two[OF assms(2)])
  moreover from assms have "derivedFlag (steppers ! 0)" "derivedFlag (steppers ! 1)"
    by (simp_all add: MAX_STEPPERS_def)
  ultimately show ?thesis by (simp add: updateAxis_derivedFlag)
qed

lemma onAxis_derivedFlag:
  assumes "\<forall>s \<in> set steppers. derivedFlag s" and "\<And>s. derivedFlag s \<Longrightarrow> derivedFlag (fst (f s))"
    and "length steppers = MAX_STEPPERS"
    and "onAxis ident f steppers = Inr (st', out)"
  shows "\<forall>s \<in> set st'. derivedFlag s"
proof -
  from assms(4) have i: "inArray ident" and st': "st' = steppers[nat ident := fst (f (steppers ! nat ident))]"
    by (auto simp add: onAxis_def Let_def split: if_splits)
  from i assms(3) have "nat ident < length steppers"
    by (simp add: inArray_def nat_less_iff)
  with assms(1) have "derivedFlag (steppers ! nat ident)" by simp
  then have "derivedFlag (fst (f (steppers ! nat ident)))" by (rule assms(2))
  with assms(1) show ?thesis unfolding st'
    using set_update_subset_insert[of steppers "nat ident" "fst (f (steppers ! nat ident))"] by auto
qed

lemma moveAxis_derivedFlag: "derivedFlag s \<Longrightarrow> derivedFlag (fst (moveAxis now j steps dir spd s))"
  by (simp add: derivedFlag_def moveAxis_fields)

lemma homeAxis_derivedFlag: "derivedFlag s \<Longrightarrow> derivedFlag (fst (homeAxis now spd s))"
  by (simp add: derivedFlag_def homeAxis_def Let_def)

lemma initAxis_derivedFlag: "derivedFlag s \<Longrightarrow> derivedFlag (fst (initAxis j a b c d e f g h s))"
  by (simp add: derivedFlag_def initAxis_def Let_def split_beta split: option.splits)

lemma derivedFlag_command:
  assumes "\<forall>s \<in> set steppers. derivedFlag s" and "length steppers = MAX_STEPPERS"
    and "handleCommand now rd c steppers = Inr (st', out)"
  shows "\<forall>s \<in> set st'. derivedFlag s"
proof (cases c)
  case (InitStepper j a b c d e f g h)
  with assms(3) show ?thesis
    using onAxis_derivedFlag[OF assms(1) _ assms(2), of "initAxis j a b c d e f g h" j st' out]
    by (simp add: initAxis_derivedFlag)
next
  case (MoveStepper j steps dir spd)
  with assms(3) assms(1) show ?thesis
    using onAxis_derivedFlag[OF assms(1) _ assms(2), of "moveAxis now j steps dir spd" j st' out]
    by (auto simp add: moveAxis_derivedFlag split: if_splits)
next
  case (HomeStepper j spd)
  with assms(3) show ?thesis
    using onAxis_derivedFlag[OF assms(1) _ assms(2), of "homeAxis now spd" j st' out]
    by (simp add: homeAxis_derivedFlag)
next
  case (SetStepperAcceleration j v)
  with assms(3) assms(1) show ?thesis
    using onAxis_derivedFlag[OF assms(1) _ assms(2),
        of "\<lambda>s. let s1 = s\<lparr>acceleration := v\<rparr>
                  in (s1\<lparr>useAcceleration := (acceleration s1 > 0 \<or> deceleration s1 > 0)\<rparr>,
                      [StatusOk ''acceleration_set''])" j st' out]
    by (auto simp add: derivedFlag_def Let_def split: if_splits)
next
  case (SetStepperDeceleration j v)
  with assms(3) assms(1) show ?thesis
    using onAxis_derivedFlag[OF assms(1) _ assms(2),
        of "\<lambda>s. let s1 = s\<lparr>deceleration := v\<rparr>
                  in (s1\<lparr>useAcceleration := (acceleration s1 > 0 \<or> deceleration s1 > 0)\<rparr>,
                      [StatusOk ''deceleration_set''])" j st' out]
    by (auto simp add: derivedFlag_def Let_def split: if_splits)
next
  case (SetStepperSpeedLimits j lo hi)
  with assms(3) assms(1) show ?thesis
    using onAxis_derivedFlag[OF assms(1) _ assms(2),
        of "\<lambda>s. (s\<lparr>minDelay := lo, maxDelay := hi\<rparr>, [StatusOk ''speed_limits_set''])" j st' out]
    by (auto simp add: derivedFlag_def split: if_splits)
next
  case (GetPinStates j)
  with assms(3) assms(1) show ?thesis
    using onAxis_derivedFlag[OF assms(1) _ assms(2), of "\<lambda>s. (s, [sendPinStates rd j s])" j st' out]
    by (auto split: if_splits)
next
  case (GetStatus opt)
  with assms(3) assms(1) show ?thesis
    using onAxis_derivedFlag[OF assms(1) _ assms(2),
        of "\<lambda>s. (s, [sendPinStates rd (case opt of Some v \<Rightarrow> v | None \<Rightarrow> 0) s])"
           "case opt of Some v \<Rightarrow> v | None \<Rightarrow> 0" st' out]
    by (auto simp add: Let_def split: if_splits)
qed







subsection \<open>Bounds on the delay\<close>

lemma updateAxis_config:
  "minDelay (fst (updateAxis fl now rd j s)) = minDelay s
   \<and> maxDelay (fst (updateAxis fl now rd j s)) = maxDelay s
   \<and> speed (fst (updateAxis fl now rd j s)) = speed s
   \<and> useAcceleration (fst (updateAxis fl now rd j s)) = useAcceleration s
   \<and> (\<not> useAcceleration s \<longrightarrow> currentDelay (fst (updateAxis fl now rd j s)) = currentDelay s)"
proof (cases "active s \<and> \<not> paused s")
  case False
  then show ?thesis by (simp add: updateAxis_idle)
next
  case True
  show ?thesis
  proof (cases "homing s")
    case True
    with \<open>active s \<and> \<not> paused s\<close> show ?thesis
      by (cases "stepDue now s"; cases "rd (home s) = LOW") (simp_all add: updateAxis_homing Let_def)
  next
    case False
    with \<open>active s \<and> \<not> paused s\<close> show ?thesis
      by (cases "readLimitSwitch rd (if direction s then limitA s else limitB s)"; cases "stepDue now s";
          cases "useAcceleration s")
         (simp_all add: updateAxis_moving Let_def updatePhase_fields)
  qed
qed

lemma config_run:
  "minDelay (finalState s (runAxis fl j es s)) = minDelay s
   \<and> maxDelay (finalState s (runAxis fl j es s)) = maxDelay s
   \<and> speed (finalState s (runAxis fl j es s)) = speed s
   \<and> (\<not> useAcceleration s \<longrightarrow> currentDelay (finalState s (runAxis fl j es s)) = currentDelay s)"
proof (induction es arbitrary: s)
  case Nil
  then show ?case by (simp add: finalState_Nil)
next
  case (Cons e es)
  from Cons.IH[of "fst (updateAxis fl (fst e) (snd e) j s)"]
    updateAxis_config[of fl "fst e" "snd e" j s]
  show ?case by (simp add: Let_def finalState_Cons)
qed

lemma delayInv_frame:
  "delayInv s \<Longrightarrow> delayInv (s\<lparr>active := a\<rparr>)"
  "delayInv s \<Longrightarrow> delayInv (s\<lparr>position := p, lastStepTime := t\<rparr>)"
  by (simp_all add: delayInv_def)

lemma delayInv_step:
  fixes s :: StepperConfig and fl :: rounding
  assumes fr: "float_rounding fl" and pinv: "progressInv s" and dinv: "delayInv s" and act: "active s"
  shows "delayInv (updatePhase fl s)"
proof -
  from dinv have b: "speed s \<le> maxDelay s" "maxDelay s - speed s \<le> 2 ^ 24"
    by (simp_all add: delayInv_def)
  from pinv have k0: "0 \<le> stepsTaken s" and d0: "0 \<le> decelSteps s" and a0': "0 \<le> accelSteps s"
    and sum: "accelSteps s + decelSteps s \<le> totalSteps s"
    by (simp_all add: progressInv_def)
  from pinv act have left: "stepsTaken s < totalSteps s \<or> totalSteps s = 0"
    by (simp add: progressInv_def)
  from pinv consider
      (a0) "movePhase s = 0" "stepsTaken s + 1 < accelSteps s"
    | (a1) "movePhase s = 0" "\<not> stepsTaken s + 1 < accelSteps s"
    | (c0) "movePhase s = 1" "totalSteps s - (stepsTaken s + 1) \<le> decelSteps s"
    | (c1) "movePhase s = 1" "\<not> totalSteps s - (stepsTaken s + 1) \<le> decelSteps s"
    | (d) "movePhase s = 2"
    unfolding progressInv_def by blast
  then show ?thesis
  proof cases
    case a0
    have e: "updatePhase fl s = s\<lparr>stepsTaken := stepsTaken s + 1,
       currentDelay := calculateAccelDelay fl (stepsTaken s + 1) (accelSteps s) (maxDelay s) (speed s)\<rparr>"
      using a0 by (rule updatePhase_cases(1))
    have "speed s \<le> calculateAccelDelay fl (stepsTaken s + 1) (accelSteps s) (maxDelay s) (speed s)
        \<and> calculateAccelDelay fl (stepsTaken s + 1) (accelSteps s) (maxDelay s) (speed s) \<le> maxDelay s"
      using b k0 a0(2) by (intro calculateAccelDelay_range[OF fr]) simp_all
    then show ?thesis unfolding e using b by (simp add: delayInv_def)
  next
    case a1
    have e: "updatePhase fl s = s\<lparr>stepsTaken := stepsTaken s + 1, movePhase := 1, currentDelay := speed s\<rparr>"
      using a1 by (rule updatePhase_cases(2))
    show ?thesis unfolding e using b by (simp add: delayInv_def)
  next
    case c0
    have e: "updatePhase fl s = s\<lparr>stepsTaken := stepsTaken s + 1, movePhase := 2\<rparr>"
      using c0 by (rule updatePhase_cases(3))
    show ?thesis unfolding e using dinv by (simp add: delayInv_def)
  next
    case c1
    have e: "updatePhase fl s = s\<lparr>stepsTaken := stepsTaken s + 1\<rparr>"
      using c1 by (rule updatePhase_cases(4))
    show ?thesis unfolding e using dinv by (simp add: delayInv_def)
  next
    case d
    let ?k = "stepsTaken s + 1 - (totalSteps s - decelSteps s)"
    have e: "updatePhase fl s = s\<lparr>stepsTaken := stepsTaken s + 1,
       currentDelay := calculateDecelDelay fl ?k (decelSteps s) (speed s) (maxDelay s)\<rparr>"
      using d by (rule updatePhase_cases(5))
    from pinv d have lo: "totalSteps s - stepsTaken s \<le> decelSteps s"
      by (simp add: progressInv_def)
    have r: "speed s \<le> calculateDecelDelay fl ?k (decelSteps s) (speed s) (maxDelay s)
        \<and> calculateDecelDelay fl ?k (decelSteps s) (speed s) (maxDelay s) \<le> maxDelay s"
    proof (cases "decelSteps s = 0")
      case True
      then show ?thesis using b by (simp add: calculateDecelDelay_def)
    next
      case False
      with d0 a0' sum have "totalSteps s \<noteq> 0" by linarith
      with left have "stepsTaken s < totalSteps s" by simp
      then show ?thesis using b lo by (intro calculateDecelDelay_range[OF fr]) simp_all
    qed
    then show ?thesis unfolding e using b by (simp add: delayInv_def)
  qed
qed

lemma delayInv_tick:
  fixes s :: StepperConfig and fl :: rounding and now :: "32 word" and rd :: pins and j :: int
  defines "s' \<equiv> fst (updateAxis fl now rd j s)"
  assumes fr: "float_rounding fl" and pinv: "progressInv s" and dinv: "delayInv s"
  shows "delayInv s'"
proof (cases "active s")
  case False
  then have "updateAxis fl now rd j s = (s, [])" by (simp add: updateAxis_idle)
  then show ?thesis using dinv by (simp add: s'_def)
next
  case True
  with pinv have f: "\<not> paused s" "\<not> homing s" "useAcceleration s"
    by (simp_all add: progressInv_def)
  note u = updateAxis_accelerated[OF True f, of fl now rd j]
  let ?p = "position s + (if direction s then 1 else - 1)"
  let ?s3 = "(updatePhase fl s)\<lparr>position := ?p, lastStepTime := now\<rparr>"
  have i3: "delayInv ?s3"
    using delayInv_step[OF fr pinv dinv True] by (rule delayInv_frame(2))
  consider (limit) "readLimitSwitch rd (if direction s then limitA s else limitB s)"
    | (wait) "\<not> readLimitSwitch rd (if direction s then limitA s else limitB s)" "\<not> stepDue now s"
    | (last) "\<not> readLimitSwitch rd (if direction s then limitA s else limitB s)" "stepDue now s"
        "?p = target s"
    | (step) "\<not> readLimitSwitch rd (if direction s then limitA s else limitB s)" "stepDue now s"
        "?p \<noteq> target s"
    by blast
  then show ?thesis
  proof cases
    case limit
    then have e: "s' = s\<lparr>active := False\<rparr>" unfolding s'_def u by simp
    show ?thesis unfolding e using dinv by (rule delayInv_frame(1))
  next
    case wait
    then have e: "s' = s" unfolding s'_def u by simp
    show ?thesis unfolding e by (rule dinv)
  next
    case last
    then have e: "s' = ?s3\<lparr>active := False\<rparr>"
      unfolding s'_def u by (simp add: Let_def updatePhase_frame)
    show ?thesis unfolding e using i3 by (rule delayInv_frame(1))
  next
    case step
    then have e: "s' = ?s3"
      unfolding s'_def u by (simp add: Let_def updatePhase_frame)
    show ?thesis unfolding e by (rule i3)
  qed
qed

lemma delayInv_run:
  assumes "float_rounding fl" "progressInv s" "delayInv s"
  shows "delayInv (finalState s (runAxis fl j es s))"
  using assms(2,3)
proof (induction es arbitrary: s)
  case Nil
  then show ?case by (simp add: finalState_Nil)
next
  case (Cons e es)
  let ?s1 = "fst (updateAxis fl (fst e) (snd e) j s)"
  from progressInv_tick[OF Cons.prems(1), of fl "fst e" "snd e" j] have p1: "progressInv ?s1" by blast
  have d1: "delayInv ?s1" by (rule delayInv_tick[OF assms(1) Cons.prems])
  from Cons.IH[OF p1 d1] show ?case by (simp add: Let_def finalState_Cons)
qed

text \<open>After a move command with the speed within the bounds, whichever branch it takes.\<close>

lemma move_delay_bounds:
  fixes s :: StepperConfig and fl :: rounding and now :: "32 word" and j steps dir spd :: int
  assumes fr: "float_rounding fl"
    and flag: "useAcceleration s \<longrightarrow> acceleration s > 0 \<or> deceleration s > 0"
    and range: "minDelay s \<le> spd" "spd \<le> maxDelay s" "maxDelay s - spd \<le> 2 ^ 24"
    and cmd: "headsForTarget dir steps"
  defines "s0 \<equiv> fst (moveAxis now j steps dir spd s)"
  shows "minDelay (finalState s0 (runAxis fl j es s0)) = minDelay s
       \<and> maxDelay (finalState s0 (runAxis fl j es s0)) = maxDelay s
       \<and> spd \<le> currentDelay (finalState s0 (runAxis fl j es s0))
       \<and> currentDelay (finalState s0 (runAxis fl j es s0)) \<le> maxDelay s"
proof -
  let ?fin = "finalState s0 (runAxis fl j es s0)"
  have f: "minDelay s0 = minDelay s" "maxDelay s0 = maxDelay s" "speed s0 = spd"
    "useAcceleration s0 = useAcceleration s"
    unfolding s0_def by (simp_all add: moveAxis_fields)
  note cf = config_run[of s0 fl j es]
  show ?thesis
  proof (cases "useAcceleration s")
    case True
    with flag have a: "acceleration s > 0 \<or> deceleration s > 0" by simp
    from cmd have hd: "dir \<noteq> 0 \<Longrightarrow> 0 \<le> (if dir = 1 then steps else - steps)" "dir = 0 \<Longrightarrow> 0 \<le> steps"
      unfolding headsForTarget_cases by blast+
    have p: "progressInv s0" unfolding s0_def by (rule moveAxis_heading_progressInv[OF True a hd])
    note pr = moveAxis_profile[OF True a, of now j steps dir spd]
    have d: "delayInv s0"
      unfolding delayInv_def f using pr(7) range unfolding s0_def[symmetric] by simp
    from delayInv_run[OF fr p d, of j es] cf show ?thesis unfolding delayInv_def f by simp
  next
    case False
    then have "currentDelay s0 = spd" unfolding s0_def by (simp add: moveAxis_constant)
    with cf False range show ?thesis unfolding f by simp
  qed
qed

text \<open>
  Claim C5, as amended. The commanded delay \<open>spd\<close> is assumed within \<open>[minDelay, maxDelay]\<close> of
  the axis (with a span up to \<open>2 ^ 24\<close>, which single precision represents exactly), the move
  heads for its target (\<open>headsForTarget\<close>: a step count that is not negative with direction 0
  or 1), \<open>useAcceleration\<close> is set only with a positive magnitude (as \<open>derivedFlag\<close> gives
  it in every state reached from start-up), and \<open>fl\<close> is a monotone rounding, exact on small
  integers. Then the two curves stay between \<open>spd\<close> and \<open>maxDelay\<close> for every step
  index within the phase; after the move command, and after every later tick, \<open>currentDelay\<close>
  is within \<open>[minDelay, maxDelay]\<close>, and the bounds themselves are unchanged; after a home
  command with that delay, \<open>currentDelay\<close> is \<open>spd\<close> at every later tick.
\<close>

theorem currentDelay_within_bounds:
  assumes "float_rounding fl" and "length steppers = MAX_STEPPERS" and "inArray ident"
    and "useAcceleration (steppers ! nat ident) \<longrightarrow>
           acceleration (steppers ! nat ident) > 0 \<or> deceleration (steppers ! nat ident) > 0"
    and "minDelay (steppers ! nat ident) \<le> spd" and "spd \<le> maxDelay (steppers ! nat ident)"
    and "maxDelay (steppers ! nat ident) - spd \<le> 2 ^ 24"
    and "headsForTarget dir steps"
  shows "(\<forall>k n. 0 \<le> k \<and> k \<le> n \<longrightarrow>
            spd \<le> calculateAccelDelay fl k n (maxDelay (steppers ! nat ident)) spd
          \<and> calculateAccelDelay fl k n (maxDelay (steppers ! nat ident)) spd \<le> maxDelay (steppers ! nat ident)
          \<and> spd \<le> calculateDecelDelay fl k n spd (maxDelay (steppers ! nat ident))
          \<and> calculateDecelDelay fl k n spd (maxDelay (steppers ! nat ident)) \<le> maxDelay (steppers ! nat ident))
       \<and> (\<exists>st0 out0.
             handleCommand now rd0 (MoveStepper ident steps dir spd) steppers = Inr (st0, out0)
           \<and> (\<forall>es. minDelay (finalState st0 (run fl es st0) ! nat ident) = minDelay (steppers ! nat ident)
                  \<and> maxDelay (finalState st0 (run fl es st0) ! nat ident) = maxDelay (steppers ! nat ident)
                  \<and> minDelay (steppers ! nat ident) \<le> currentDelay (finalState st0 (run fl es st0) ! nat ident)
                  \<and> currentDelay (finalState st0 (run fl es st0) ! nat ident) \<le> maxDelay (steppers ! nat ident)))
       \<and> (\<exists>st0 out0.
             handleCommand now rd0 (HomeStepper ident (Some spd)) steppers = Inr (st0, out0)
           \<and> (\<forall>es. minDelay (finalState st0 (run fl es st0) ! nat ident) = minDelay (steppers ! nat ident)
                  \<and> maxDelay (finalState st0 (run fl es st0) ! nat ident) = maxDelay (steppers ! nat ident)
                  \<and> currentDelay (finalState st0 (run fl es st0) ! nat ident) = spd))"
proof -
  let ?i = "nat ident"
  let ?old = "steppers ! ?i"
  have i: "?i < MAX_STEPPERS" "int ?i = ident"
    using assms(3) by (simp_all add: inArray_def MAX_STEPPERS_def nat_less_iff)
  have calc: "\<forall>k n. 0 \<le> k \<and> k \<le> n \<longrightarrow>
            spd \<le> calculateAccelDelay fl k n (maxDelay ?old) spd
          \<and> calculateAccelDelay fl k n (maxDelay ?old) spd \<le> maxDelay ?old
          \<and> spd \<le> calculateDecelDelay fl k n spd (maxDelay ?old)
          \<and> calculateDecelDelay fl k n spd (maxDelay ?old) \<le> maxDelay ?old"
    using calculateAccelDelay_range[OF assms(1,6,7)] calculateDecelDelay_range[OF assms(1,6,7)]
    by blast
  have move: "\<exists>st0 out0.
             handleCommand now rd0 (MoveStepper ident steps dir spd) steppers = Inr (st0, out0)
           \<and> (\<forall>es. minDelay (finalState st0 (run fl es st0) ! ?i) = minDelay ?old
                  \<and> maxDelay (finalState st0 (run fl es st0) ! ?i) = maxDelay ?old
                  \<and> minDelay ?old \<le> currentDelay (finalState st0 (run fl es st0) ! ?i)
                  \<and> currentDelay (finalState st0 (run fl es st0) ! ?i) \<le> maxDelay ?old)"
  proof -
    let ?s0 = "fst (moveAxis now ident steps dir spd ?old)"
    let ?st0 = "steppers[?i := ?s0]"
    have len0: "length ?st0 = MAX_STEPPERS" using assms(2) by simp
    have n: "?st0 ! ?i = ?s0" using assms(2) i(1) by simp
    have cmd: "handleCommand now rd0 (MoveStepper ident steps dir spd) steppers
               = Inr (?st0, snd (moveAxis now ident steps dir spd ?old))"
      by (rule moveStepper_valid[OF assms(3)])
    have body: "minDelay (finalState ?st0 (run fl es ?st0) ! ?i) = minDelay ?old
                  \<and> maxDelay (finalState ?st0 (run fl es ?st0) ! ?i) = maxDelay ?old
                  \<and> minDelay ?old \<le> currentDelay (finalState ?st0 (run fl es ?st0) ! ?i)
                  \<and> currentDelay (finalState ?st0 (run fl es ?st0) ! ?i) \<le> maxDelay ?old" for es
    proof -
      have fs: "finalState ?st0 (run fl es ?st0) ! ?i
                  = finalState ?s0 (runAxis fl ident (axisView ?i es) ?s0)"
        using finalState_axis[OF len0 i(1), of fl es] unfolding i(2) n .
      from move_delay_bounds[OF assms(1,4,5,6,7,8), of now ident "axisView ?i es"] assms(5)
      show ?thesis unfolding fs by linarith
    qed
    show ?thesis
      apply (rule exI[of _ ?st0], rule exI[of _ "snd (moveAxis now ident steps dir spd ?old)"])
      apply (rule conjI)
       apply (rule cmd)
      apply (rule allI)
      apply (rule body)
      done
  qed
  have home: "\<exists>st0 out0.
             handleCommand now rd0 (HomeStepper ident (Some spd)) steppers = Inr (st0, out0)
           \<and> (\<forall>es. minDelay (finalState st0 (run fl es st0) ! ?i) = minDelay ?old
                  \<and> maxDelay (finalState st0 (run fl es st0) ! ?i) = maxDelay ?old
                  \<and> currentDelay (finalState st0 (run fl es st0) ! ?i) = spd)"
  proof -
    let ?s0 = "fst (homeAxis now (Some spd) ?old)"
    let ?st0 = "steppers[?i := ?s0]"
    have len0: "length ?st0 = MAX_STEPPERS" using assms(2) by simp
    have n: "?st0 ! ?i = ?s0" using assms(2) i(1) by simp
    have cmd: "handleCommand now rd0 (HomeStepper ident (Some spd)) steppers
               = Inr (?st0, snd (homeAxis now (Some spd) ?old))"
      by (rule homeStepper_valid[OF assms(3)])
    have hs: "homeSeek ?s0" by (simp add: homeSeek_def homeAxis_fields)
    have body: "minDelay (finalState ?st0 (run fl es ?st0) ! ?i) = minDelay ?old
                  \<and> maxDelay (finalState ?st0 (run fl es ?st0) ! ?i) = maxDelay ?old
                  \<and> currentDelay (finalState ?st0 (run fl es ?st0) ! ?i) = spd" for es
    proof -
      have fs: "finalState ?st0 (run fl es ?st0) ! ?i
                  = finalState ?s0 (runAxis fl ident (axisView ?i es) ?s0)"
        using finalState_axis[OF len0 i(1), of fl es] unfolding i(2) n .
      from homeSeek_run[OF hs, of fl ident "axisView ?i es"]
      show ?thesis unfolding fs by (simp add: homeAxis_fields)
    qed
    show ?thesis
      apply (rule exI[of _ ?st0], rule exI[of _ "snd (homeAxis now (Some spd) ?old)"])
      apply (rule conjI)
       apply (rule cmd)
      apply (rule allI)
      apply (rule body)
      done
  qed
  from calc move home show ?thesis by (intro conjI)
qed

text \<open>
  Claim C5 as stated fails: a move command stores the commanded delay in \<open>currentDelay\<close> as it
  comes. With the default bounds 500 and 5000, a move with delay 100 leaves \<open>currentDelay\<close> at
  100, below \<open>minDelay\<close>. It fails with a delay within the bounds, too: a move of \<open>- 1\<close> steps in
  direction 1 travels forward with its target behind it, the step count passes \<open>totalSteps\<close>,
  and at the second step the deceleration curve is read at index 2 of 1 and gives 9000, above
  \<open>maxDelay\<close>.
\<close>

theorem speed_below_minDelay_counterexample:
  "handleCommand 0 released (MoveStepper 0 5 1 100) setupSteppers = Inr (fastStart, [DigitalWrite 0 HIGH])
   \<and> currentDelay (fastStart ! 0) = 100 \<and> minDelay (fastStart ! 0) = 500
   \<and> currentDelay (fastStart ! 0) < minDelay (fastStart ! 0)
   \<and> handleCommand 0 released (MoveStepper 0 (- 1) 1 1000) bothRamps
        = Inr (backwardStart, [DigitalWrite 0 HIGH, AccelSetup 0 1 10 10 500 500 1000 5000])
   \<and> map (\<lambda>st. currentDelay (st ! 0))
         (map fst (run exact [(1000, allReleased), (2000, allReleased)] backwardStart)) = [1000, 9000]
   \<and> maxDelay (finalState backwardStart
         (run exact [(1000, allReleased), (2000, allReleased)] backwardStart) ! 0) = 5000"
proof -
  have a: "handleCommand 0 released (MoveStepper 0 5 1 100) setupSteppers = Inr (fastStart, [DigitalWrite 0 HIGH])"
    by (simp add: eval_defs setupSteppers_def fastStart_def)
  have b: "currentDelay (fastStart ! 0) = 100 \<and> minDelay (fastStart ! 0) = 500
         \<and> currentDelay (fastStart ! 0) < minDelay (fastStart ! 0)"
    by (simp add: fastStart_def setupStepper_def)
  have c: "handleCommand 0 released (MoveStepper 0 (- 1) 1 1000) bothRamps
        = Inr (backwardStart, [DigitalWrite 0 HIGH, AccelSetup 0 1 10 10 500 500 1000 5000])"
    by (simp add: eval_defs bothRamps_def backwardStart_def)
  have r: "run exact [(1000, allReleased), (2000, allReleased)] backwardStart =
     [([setupStepper\<lparr>acceleration := 500, deceleration := 500, useAcceleration := True,
        target := - 1, speed := 1000, direction := True, homing := False, totalSteps := 1,
        stepsTaken := 1, accelSteps := 0, decelSteps := 1, movePhase := 2, currentDelay := 1000,
        active := True, paused := False, lastStepTime := 1000, position := 1\<rparr>, setupStepper],
       [StepPulse 0]),
      ([setupStepper\<lparr>acceleration := 500, deceleration := 500, useAcceleration := True,
        target := - 1, speed := 1000, direction := True, homing := False, totalSteps := 1,
        stepsTaken := 2, accelSteps := 0, decelSteps := 1, movePhase := 2, currentDelay := 9000,
        active := True, paused := False, lastStepTime := 2000, position := 2\<rparr>, setupStepper],
       [StepPulse 0])]"
    by (simp add: eval_defs ramp_eval_defs backwardStart_def)
  have d: "map (\<lambda>st. currentDelay (st ! 0))
         (map fst (run exact [(1000, allReleased), (2000, allReleased)] backwardStart)) = [1000, 9000]"
    unfolding r by simp
  have e: "maxDelay (finalState backwardStart
         (run exact [(1000, allReleased), (2000, allReleased)] backwardStart) ! 0) = 5000"
    unfolding r by (simp add: finalState_def setupStepper_def)
  from a b c d e show ?thesis by (intro conjI) blast+
qed

theorem currentDelay_within_bounds_witness:
  "float_rounding exact \<and> length bothRamps = MAX_STEPPERS \<and> inArray 0
   \<and> acceleration (bothRamps ! nat 0) > 0
   \<and> minDelay (bothRamps ! nat 0) \<le> 1000 \<and> 1000 \<le> maxDelay (bothRamps ! nat 0)
   \<and> maxDelay (bothRamps ! nat 0) - 1000 \<le> 2 ^ 24 \<and> headsForTarget 1 8
   \<and> handleCommand 0 released (MoveStepper 0 8 1 1000) bothRamps
        = Inr (eightStepStart, [DigitalWrite 0 HIGH, AccelSetup 0 8 10 10 500 500 1000 5000])
   \<and> minDelay (bothRamps ! nat 0)
        \<le> currentDelay (finalState eightStepStart (run exact [(5000, allReleased)] eightStepStart) ! nat 0)
   \<and> currentDelay (finalState eightStepStart (run exact [(5000, allReleased)] eightStepStart) ! nat 0)
        \<le> maxDelay (bothRamps ! nat 0)
   \<and> 1000 \<le> calculateAccelDelay exact 1 4 (maxDelay (bothRamps ! nat 0)) 1000
   \<and> calculateAccelDelay exact 1 4 (maxDelay (bothRamps ! nat 0)) 1000 \<le> maxDelay (bothRamps ! nat 0)"
proof -
  let ?es = "[(5000 :: 32 word, allReleased)]"
  have h: "float_rounding exact" "length bothRamps = MAX_STEPPERS" "inArray 0"
    "useAcceleration (bothRamps ! nat 0) \<longrightarrow>
       acceleration (bothRamps ! nat 0) > 0 \<or> deceleration (bothRamps ! nat 0) > 0"
    "minDelay (bothRamps ! nat 0) \<le> 1000" "1000 \<le> maxDelay (bothRamps ! nat 0)"
    "maxDelay (bothRamps ! nat 0) - 1000 \<le> 2 ^ 24"
    "headsForTarget 1 8"
    by (simp_all add: float_rounding_exact bothRamps_def inArray_def MAX_STEPPERS_def setupStepper_def
        headsForTarget_def)
  have acc: "acceleration (bothRamps ! nat 0) > 0" by (simp add: bothRamps_def)
  have c: "handleCommand 0 released (MoveStepper 0 8 1 1000) bothRamps
        = Inr (eightStepStart, [DigitalWrite 0 HIGH, AccelSetup 0 8 10 10 500 500 1000 5000])"
    by (simp add: eval_defs bothRamps_def eightStepStart_def)
  note t = currentDelay_within_bounds[OF h, of 0 released]
  from t obtain st0 out0 where
    c': "handleCommand 0 released (MoveStepper 0 8 1 1000) bothRamps = Inr (st0, out0)"
    and b: "\<forall>es. minDelay (finalState st0 (run exact es st0) ! nat 0) = minDelay (bothRamps ! nat 0)
                  \<and> maxDelay (finalState st0 (run exact es st0) ! nat 0) = maxDelay (bothRamps ! nat 0)
                  \<and> minDelay (bothRamps ! nat 0) \<le> currentDelay (finalState st0 (run exact es st0) ! nat 0)
                  \<and> currentDelay (finalState st0 (run exact es st0) ! nat 0) \<le> maxDelay (bothRamps ! nat 0)"
    by blast
  from t have calc: "\<forall>k n. 0 \<le> k \<and> k \<le> n \<longrightarrow>
            1000 \<le> calculateAccelDelay exact k n (maxDelay (bothRamps ! nat 0)) 1000
          \<and> calculateAccelDelay exact k n (maxDelay (bothRamps ! nat 0)) 1000 \<le> maxDelay (bothRamps ! nat 0)
          \<and> 1000 \<le> calculateDecelDelay exact k n 1000 (maxDelay (bothRamps ! nat 0))
          \<and> calculateDecelDelay exact k n 1000 (maxDelay (bothRamps ! nat 0)) \<le> maxDelay (bothRamps ! nat 0)"
    by blast
  from c c' have st0: "st0 = eightStepStart" by simp
  from b[unfolded st0, rule_format, of ?es]
  have r: "minDelay (bothRamps ! nat 0)
        \<le> currentDelay (finalState eightStepStart (run exact ?es eightStepStart) ! nat 0)"
    "currentDelay (finalState eightStepStart (run exact ?es eightStepStart) ! nat 0)
        \<le> maxDelay (bothRamps ! nat 0)"
    by blast+
  from calc[rule_format, of 1 4]
  have k: "1000 \<le> calculateAccelDelay exact 1 4 (maxDelay (bothRamps ! nat 0)) 1000"
    "calculateAccelDelay exact 1 4 (maxDelay (bothRamps ! nat 0)) 1000 \<le> maxDelay (bothRamps ! nat 0)"
    by simp_all
  show ?thesis using h(1,2,3) acc h(5,6,7,8) c r k by (intro conjI)
qed

subsection \<open>A move of zero steps\<close>






subsection \<open>The position counter after 2 ^ 32 pulses\<close>

lemma int32_in_range: "- (2 ^ 31) \<le> x \<Longrightarrow> x < 2 ^ 31 \<Longrightarrow> int32 x = x"
  by (simp add: int32_def)



lemma updateAxis32_agrees:
  assumes "- (2 ^ 31) < position s" "position s < 2 ^ 31 - 1"
  shows "updateAxis32 fl now rd j s = updateAxis fl now rd j s"
proof -
  have "int32 (position s + 1) = position s + 1" "int32 (position s - 1) = position s - 1"
    using assms by (simp_all add: int32_in_range)
  then show ?thesis
    by (simp add: updateAxis32_def updateAxis_def checkLimitSwitches_def Let_def)
qed


lemma updateSteppers32_two:
  assumes "length steppers = MAX_STEPPERS"
  shows "updateSteppers32 fl now rd steppers =
           ([fst (updateAxis32 fl now (rd 0) 0 (steppers ! 0)), fst (updateAxis32 fl now (rd 1) 1 (steppers ! 1))],
            snd (updateAxis32 fl now (rd 0) 0 (steppers ! 0)) @ snd (updateAxis32 fl now (rd 1) 1 (steppers ! 1)))"
proof -
  from assms obtain a b where st: "steppers = [a, b]"
    by (cases steppers; cases "tl steppers"; auto simp: MAX_STEPPERS_def)
  show ?thesis
    by (simp add: st updateSteppers32_def upt_MAX split_beta Let_def)
qed

lemma updateSteppers32_agrees:
  assumes "length st = MAX_STEPPERS"
    and "\<forall>s \<in> set st. - (2 ^ 31) < position s \<and> position s < 2 ^ 31 - 1"
  shows "updateSteppers32 fl now rd st = updateSteppers fl now rd st"
proof -
  have "st ! 0 \<in> set st" "st ! 1 \<in> set st" using assms(1) by (simp_all add: MAX_STEPPERS_def)
  with assms(2) have r0: "- (2 ^ 31) < position (st ! 0)" "position (st ! 0) < 2 ^ 31 - 1"
    and r1: "- (2 ^ 31) < position (st ! 1)" "position (st ! 1) < 2 ^ 31 - 1"
    by blast+
  show ?thesis
    unfolding updateSteppers32_two[OF assms(1)] updateSteppers_two[OF assms(1)]
      updateAxis32_agrees[OF r0] updateAxis32_agrees[OF r1] ..
qed

text \<open>
  The ticks with the wrapped counter are the ticks of \<open>run\<close> for as long as every position
  stays strictly within the range of a 32-bit int.
\<close>

lemma run32_agrees:
  assumes "length st = MAX_STEPPERS"
    and "\<forall>x \<in> set (st # map fst (run fl es st)).
           \<forall>s \<in> set x. - (2 ^ 31) < position s \<and> position s < 2 ^ 31 - 1"
  shows "run32 fl es st = run fl es st"
  using assms
proof (induction es arbitrary: st)
  case Nil
  show ?case by simp
next
  case (Cons e es)
  let ?r = "updateSteppers fl (fst e) (snd e) st"
  have u: "updateSteppers32 fl (fst e) (snd e) st = ?r"
    using Cons.prems by (intro updateSteppers32_agrees) simp_all
  have len: "length (fst ?r) = MAX_STEPPERS" by (rule updateSteppers_length[OF Cons.prems(1)])
  have tr: "\<forall>x \<in> set (fst ?r # map fst (run fl es (fst ?r))).
              \<forall>s \<in> set x. - (2 ^ 31) < position s \<and> position s < 2 ^ 31 - 1"
    using Cons.prems(2) by (simp add: Let_def)
  from Cons.IH[OF len tr] u show ?case by (simp add: Let_def)
qed









subsection \<open>The example registries\<close>

text \<open>
  The registry \<open>bothRamps\<close> is the start-up state after the two setters, and \<open>movingForward\<close>
  is the start-up state after a move command of five steps.
\<close>

lemma bothRamps_reachable:
  "\<exists>st1. handleCommand t1 rd1 (SetStepperAcceleration 0 500) setupSteppers
            = Inr (st1, [StatusOk ''acceleration_set''])
       \<and> handleCommand t2 rd2 (SetStepperDeceleration 0 500) st1
            = Inr (bothRamps, [StatusOk ''deceleration_set''])"
  by (simp add: eval_defs setupSteppers_def bothRamps_def)

lemma movingForward_reachable:
  "handleCommand 0 rd (MoveStepper 0 5 1 1000) setupSteppers = Inr (movingForward, [DigitalWrite 0 HIGH])"
  by (simp add: eval_defs setupSteppers_def movingForward_def)

end
